theory Spec2Isabelle
  imports Complex_Main "HOL-Library.Word" "HOL-Library.Log_Nat"
begin

unbundle bit_operations_syntax

section \<open>Buffers and errors\<close>

text \<open>
  A Node.js \<open>Buffer\<close> is a list of bytes.  JavaScript integers are modelled as \<open>int\<close>.
  Every \<open>throw\<close> of the source, and every \<open>RangeError\<close> raised by a Buffer accessor,
  is a value of the type \<open>error\<close>; a function that can throw returns \<open>error + 'a\<close>.
\<close>

type_synonym byte = "8 word"
type_synonym buffer = "byte list"

datatype error =
    RangeError
  | TypeError
  | InvalidV5Start
  | InvalidV5End
  | UnexpectedV5Ctrl nat
  | V5PayloadOutOfBounds
  | ModbusTcpException nat
  | UnexpectedModbusTcpFc int nat
  | ModbusRtuTooShort
  | ModbusRtuException nat
  | UnexpectedModbusRtuFc int nat
  | SocketError string

text \<open>Sequencing of statements that can throw: the first error ends the computation.\<close>

definition bindE :: "error + 'a \<Rightarrow> ('a \<Rightarrow> error + 'b) \<Rightarrow> error + 'b" where
  "bindE m f = (case m of Inl e \<Rightarrow> Inl e | Inr x \<Rightarrow> f x)"

definition V5_START :: byte where "V5_START = 0xA5"
definition V5_END :: byte where "V5_END = 0x15"
definition V5_CTRL_REQUEST :: int where "V5_CTRL_REQUEST = 0x4510"
definition V5_CTRL_RESPONSE :: nat where "V5_CTRL_RESPONSE = 0x1510"
definition MODBUS_TCP_HEADER_LEN :: nat where "MODBUS_TCP_HEADER_LEN = 7"

text \<open>\<open>buf.writeUInt16LE(v)\<close>, \<open>buf.writeUInt16BE(v)\<close> and \<open>buf.writeUInt32LE(v)\<close>: the bytes
  written; Node raises a RangeError when the value is outside the field's range.\<close>

definition writeUInt16LE :: "int \<Rightarrow> error + buffer" where
  "writeUInt16LE v =
     (if v < 0 \<or> 65535 < v then Inl RangeError
      else Inr [word_of_int (v mod 256), word_of_int (v div 256)])"

definition writeUInt16BE :: "int \<Rightarrow> error + buffer" where
  "writeUInt16BE v =
     (if v < 0 \<or> 65535 < v then Inl RangeError
      else Inr [word_of_int (v div 256), word_of_int (v mod 256)])"

definition writeUInt32LE :: "int \<Rightarrow> error + buffer" where
  "writeUInt32LE v =
     (if v < 0 \<or> 4294967295 < v then Inl RangeError
      else Inr [word_of_int (v mod 256), word_of_int (v div 256 mod 256),
                word_of_int (v div 65536 mod 256), word_of_int (v div 16777216)])"

text \<open>\<open>buf.readUInt16LE(off)\<close> and \<open>buf.readUInt16BE(off)\<close>: a RangeError when the two
  bytes are not inside the buffer.  \<open>peekUInt16BE\<close> is the value read at an offset already
  known to be in range.\<close>

definition readUInt16LE :: "buffer \<Rightarrow> nat \<Rightarrow> error + nat" where
  "readUInt16LE buf off =
     (if length buf < off + 2 then Inl RangeError
      else Inr (unat (buf ! off) + 256 * unat (buf ! (off + 1))))"

definition peekUInt16BE :: "buffer \<Rightarrow> nat \<Rightarrow> nat" where
  "peekUInt16BE buf off = 256 * unat (buf ! off) + unat (buf ! (off + 1))"

definition readUInt16BE :: "buffer \<Rightarrow> nat \<Rightarrow> error + nat" where
  "readUInt16BE buf off =
     (if length buf < off + 2 then Inl RangeError else Inr (peekUInt16BE buf off))"

text \<open>\<open>x >>> 0\<close> on an integer: its value modulo \<open>2^32\<close>.\<close>

definition toUint32 :: "int \<Rightarrow> int" where
  "toUint32 x = x mod 4294967296"

section \<open>solarmanV5.js: checksums and Modbus request ADUs\<close>

text \<open>\<open>crc16\<close>: the register \<open>crc\<close> starts at \<open>0xffff\<close> and never leaves 16 bits, so it
  is a 16-bit word; the inner loop runs eight times.\<close>

definition crc16_bit :: "16 word \<Rightarrow> 16 word" where
  "crc16_bit crc =
     (if crc AND 0x0001 \<noteq> 0 then (drop_bit 1 crc) XOR 0xA001 else drop_bit 1 crc)"

definition crc16_byte :: "16 word \<Rightarrow> byte \<Rightarrow> 16 word" where
  "crc16_byte crc b = (crc16_bit ^^ 8) (crc XOR ucast b)"

definition crc16 :: "buffer \<Rightarrow> 16 word" where
  "crc16 buf = foldl crc16_byte 0xFFFF buf"

text \<open>\<open>v5Checksum\<close>: the sum of the bytes at indices \<open>1 .. length - 3\<close>, masked to 8 bits.\<close>

definition v5Checksum :: "buffer \<Rightarrow> byte" where
  "v5Checksum frame =
     of_nat (sum_list (map unat (take (length frame - 3) (drop 1 frame))) mod 256)"

text \<open>\<open>buildModbusRtuFrame\<close>: \<open>frame[0] = slaveId\<close> and \<open>frame[1] = fc\<close> store the value
  modulo 256; the two 16-bit writes can raise.\<close>

definition buildModbusRtuFrame :: "int \<Rightarrow> int \<Rightarrow> int \<Rightarrow> int \<Rightarrow> error + buffer" where
  "buildModbusRtuFrame slaveId fc register valueOrCount =
     bindE (writeUInt16BE register) (\<lambda>r.
     bindE (writeUInt16BE valueOrCount) (\<lambda>v.
       let frame = [word_of_int slaveId, word_of_int fc] @ r @ v;
           crc = crc16 frame
       in Inr (frame @ [ucast crc, ucast (drop_bit 8 crc)])))"

definition buildModbusTcpFrame :: "int \<Rightarrow> int \<Rightarrow> int \<Rightarrow> int \<Rightarrow> int \<Rightarrow> error + buffer" where
  "buildModbusTcpFrame transactionId unitId fc register valueOrCount =
     bindE (writeUInt16BE register) (\<lambda>r.
     bindE (writeUInt16BE valueOrCount) (\<lambda>v.
       let pdu = [word_of_int fc] @ r @ v in
     bindE (writeUInt16BE (transactionId mod 65536)) (\<lambda>t.
     bindE (writeUInt16BE 0) (\<lambda>p.
     bindE (writeUInt16BE (1 + int (length pdu))) (\<lambda>l.
       Inr ((t @ p @ l @ [word_of_int unitId]) @ pdu))))))"

section \<open>solarmanV5.js: the outer frame\<close>

text \<open>\<open>encodeV5Frame\<close>: the buffer is allocated zeroed with \<open>11 + payloadLen + 2\<close> bytes and
  filled from the left; the checksum is taken while the last two bytes are still zero.\<close>

definition encodeV5Frame :: "buffer \<Rightarrow> int \<Rightarrow> int \<Rightarrow> error + buffer" where
  "encodeV5Frame modbusFrame loggerSerial sequence =
     (let payloadLen = 15 + int (length modbusFrame) in
      bindE (writeUInt16LE payloadLen) (\<lambda>pl.
      bindE (writeUInt16LE V5_CTRL_REQUEST) (\<lambda>ctrl.
      bindE (writeUInt16LE sequence) (\<lambda>sq.
      bindE (writeUInt32LE (toUint32 loggerSerial)) (\<lambda>ser.
        let body = [V5_START] @ pl @ ctrl @ sq @ ser @ [0x02] @ replicate 14 0 @ modbusFrame;
            cs = v5Checksum (body @ [0, 0])
        in Inr (body @ [cs, V5_END]))))))"

text \<open>\<open>decodeV5Frame\<close>: \<open>v5Frame[0]\<close> of an empty buffer is \<open>undefined\<close>, which differs from the
  start byte; \<open>slice(25, modbusEnd)\<close> is empty when \<open>modbusEnd \<le> 25\<close>.\<close>

definition stripTrailingZeros :: "buffer \<Rightarrow> buffer" where
  "stripTrailingZeros modbus =
     (if length modbus \<ge> 2 \<and> modbus ! (length modbus - 2) = 0x00
           \<and> modbus ! (length modbus - 1) = 0x00
      then take (length modbus - 2) modbus
      else modbus)"

definition decodeV5Frame :: "buffer \<Rightarrow> error + buffer" where
  "decodeV5Frame v5Frame =
     (if v5Frame = [] \<or> v5Frame ! 0 \<noteq> V5_START then Inl InvalidV5Start
      else if last v5Frame \<noteq> V5_END then Inl InvalidV5End
      else bindE (readUInt16LE v5Frame 3) (\<lambda>ctrl.
        if ctrl \<noteq> V5_CTRL_RESPONSE then Inl (UnexpectedV5Ctrl ctrl)
        else bindE (readUInt16LE v5Frame 1) (\<lambda>payloadLen.
          let modbusStart = 25; modbusEnd = 11 + payloadLen in
          if modbusEnd > length v5Frame - 2 then Inl V5PayloadOutOfBounds
          else Inr (stripTrailingZeros
                      (take (modbusEnd - modbusStart) (drop modbusStart v5Frame))))))"

text \<open>The round trip of the tested property: build the outer frame, then decode it.\<close>

definition v5_roundtrip :: "buffer \<Rightarrow> int \<Rightarrow> int \<Rightarrow> error + buffer" where
  "v5_roundtrip adu loggerSerial sequence =
     bindE (encodeV5Frame adu loggerSerial sequence) decodeV5Frame"

section \<open>solarmanV5.js: parsing a response ADU\<close>

text \<open>\<open>looksLikeModbusTcp\<close>: at least nine bytes, protocol id zero, declared length at least
  two.  The source then compares \<open>MODBUS_TCP_HEADER_LEN + len\<close> with \<open>frame.length + 2\<close> in an
  \<open>if\<close> whose body is empty, and returns true on either side of it.\<close>

definition looksLikeModbusTcp :: "buffer \<Rightarrow> bool" where
  "looksLikeModbusTcp frame =
     (if length frame < MODBUS_TCP_HEADER_LEN + 2 then False
      else
        let protocolId = peekUInt16BE frame 2;
            len = peekUInt16BE frame 4
        in if protocolId \<noteq> 0 then False
           else if len < 2 then False
           else True)"

text \<open>The loop \<open>for (i = 0; i < byteCount; i += 2) values.push(adu.readUInt16BE(start + i))\<close>.\<close>

function readValues :: "buffer \<Rightarrow> nat \<Rightarrow> nat \<Rightarrow> nat \<Rightarrow> nat list \<Rightarrow> error + nat list" where
  "readValues adu start byteCount i values =
     (if i < byteCount then
        (case readUInt16BE adu (start + i) of
           Inl e \<Rightarrow> Inl e
         | Inr v \<Rightarrow> readValues adu start byteCount (i + 2) (values @ [v]))
      else Inr values)"
  by pat_completeness auto
termination
  by (relation "measure (\<lambda>(adu, start, byteCount, i, values). byteCount - i)") auto

declare readValues.simps [simp del]

text \<open>\<open>parseRegistersAuto\<close>: the block under the comment "Modbus TCP path" and the block
  under the comment "Modbus RTU path", and the test that chooses between them.\<close>

definition parseTcpPath :: "buffer \<Rightarrow> int \<Rightarrow> error + nat list" where
  "parseTcpPath adu expectedFc =
     (let fc = adu ! 7 in
      if fc AND 0x80 \<noteq> 0 then Inl (ModbusTcpException (unat (adu ! 8)))
      else if int (unat fc) \<noteq> expectedFc then Inl (UnexpectedModbusTcpFc expectedFc (unat fc))
      else readValues adu 9 (unat (adu ! 8)) 0 [])"

definition parseRtuPath :: "buffer \<Rightarrow> int \<Rightarrow> error + nat list" where
  "parseRtuPath adu expectedFc =
     (if length adu < 5 then Inl ModbusRtuTooShort
      else
        let fc = adu ! 1 in
        if fc AND 0x80 \<noteq> 0 then Inl (ModbusRtuException (unat (adu ! 2)))
        else if int (unat fc) \<noteq> expectedFc then Inl (UnexpectedModbusRtuFc expectedFc (unat fc))
        else readValues adu 3 (unat (adu ! 2)) 0 [])"

definition parseRegistersAuto :: "buffer \<Rightarrow> int \<Rightarrow> error + nat list" where
  "parseRegistersAuto adu expectedFc =
     (if looksLikeModbusTcp adu then parseTcpPath adu expectedFc
      else parseRtuPath adu expectedFc)"

text \<open>
  The reading of the specification: the declared MBAP length is plausible for the bytes
  present.  It is the comparison that the source writes down in \<open>looksLikeModbusTcp\<close> and
  leaves without effect: the length covers at least unit id and function code, and the
  ADU it announces is at most two bytes longer than the buffer.
\<close>

definition spec_declaredLengthPlausible :: "buffer \<Rightarrow> bool" where
  "spec_declaredLengthPlausible frame =
     (let len = peekUInt16BE frame 4
      in 2 \<le> len \<and> MODBUS_TCP_HEADER_LEN + len \<le> length frame + 2)"

definition spec_tcpShaped :: "buffer \<Rightarrow> bool" where
  "spec_tcpShaped frame = (peekUInt16BE frame 2 = 0 \<and> spec_declaredLengthPlausible frame)"

section \<open>solarmanV5.js: the client\<close>

datatype transport = RTU | TCP

record client =
  loggerSerial :: int
  slaveId :: int
  sequence :: int
  txId :: int
  transport :: transport

definition nextSequence :: "client \<Rightarrow> client" where
  "nextSequence c = c\<lparr>sequence := (sequence c + 1) mod 65536\<rparr>"

definition nextTxId :: "client \<Rightarrow> client" where
  "nextTxId c = c\<lparr>txId := (txId c + 1) mod 65536\<rparr>"

text \<open>\<open>_buildModbusRequest\<close>: in TCP mode the transaction id is advanced before the frame
  is built, so the advance survives a RangeError of the builder.\<close>

definition buildModbusRequest :: "client \<Rightarrow> int \<Rightarrow> int \<Rightarrow> int \<Rightarrow> (error + buffer) \<times> client" where
  "buildModbusRequest c fc register countOrValue =
     (if transport c = TCP then
        (let c' = nextTxId c
         in (buildModbusTcpFrame (txId c') (slaveId c') fc register countOrValue, c'))
      else (buildModbusRtuFrame (slaveId c) fc register countOrValue, c))"

text \<open>
  \<open>_readRegisters\<close>.  The logger on the other side of the socket is the parameter \<open>net\<close>:
  \<open>_sendReceive\<close> hands it the request frame and gets back the response frame, or fails
  (connection refused, timeout, socket closed).  The result is what the promise settles
  to, the client afterwards, and the list of request frames handed to \<open>_sendReceive\<close>, in
  order.  Building, sending and \<open>decodeV5Frame\<close> are outside the \<open>try\<close>; only a failure of
  \<open>parseRegistersAuto\<close> reaches the \<open>catch\<close>.
\<close>

function readRegisters ::
  "(buffer \<Rightarrow> error + buffer) \<Rightarrow> client \<Rightarrow> int \<Rightarrow> int \<Rightarrow> int
     \<Rightarrow> (error + nat list) \<times> client \<times> buffer list" where
  "readRegisters net c fc register count =
     (case buildModbusRequest c fc register count of
        (Inl e, c1) \<Rightarrow> (Inl e, c1, [])
      | (Inr modbusReq, c1) \<Rightarrow>
          (let c2 = nextSequence c1 in
           case encodeV5Frame modbusReq (loggerSerial c2) (sequence c2) of
             Inl e \<Rightarrow> (Inl e, c2, [])
           | Inr v5Req \<Rightarrow>
               (case net v5Req of
                  Inl e \<Rightarrow> (Inl e, c2, [v5Req])
                | Inr v5Resp \<Rightarrow>
                    (case decodeV5Frame v5Resp of
                       Inl e \<Rightarrow> (Inl e, c2, [v5Req])
                     | Inr adu \<Rightarrow>
                         (case parseRegistersAuto adu fc of
                            Inr values \<Rightarrow>
                              (Inr values,
                               (if transport c2 = RTU \<and> looksLikeModbusTcp adu
                                then c2\<lparr>transport := TCP\<rparr> else c2),
                               [v5Req])
                          | Inl e \<Rightarrow>
                              (if transport c2 = RTU \<and> looksLikeModbusTcp adu
                               then
                                 (case readRegisters net (c2\<lparr>transport := TCP\<rparr>) fc register count of
                                    (r, c3, sent) \<Rightarrow> (r, c3, v5Req # sent))
                               else (Inl e, c2, [v5Req])))))))"
  by pat_completeness auto
termination
  by (relation "measure (\<lambda>(net, c, fc, register, count). if transport c = RTU then 1 else 0)")
     (auto simp: buildModbusRequest_def nextSequence_def nextTxId_def Let_def split: if_splits)

declare readRegisters.simps [simp del]

section \<open>JavaScript numbers\<close>

text \<open>
  A JavaScript number is an IEEE 754 double: a finite value, an infinity or NaN.  A finite
  double is given by its value, a rational number; the two zeros are not told apart (no
  operation of the source tells them apart).  \<open>fl\<close> rounds a rational number to the nearest
  double, ties to even: 53 significant bits, least exponent \<open>-1022\<close> with the subnormal
  spacing \<open>2^(-1074)\<close> below it, and infinity when the rounded magnitude reaches \<open>2^1024\<close>
  (its exponent reaches 1024).
  An arithmetic operation on finite doubles is the exact operation followed by \<open>fl\<close>.
\<close>

datatype number = Finite rat | PosInfinity | NegInfinity | NaN

definition pow2 :: "int \<Rightarrow> rat" where
  "pow2 e = (if 0 \<le> e then 2 ^ nat e else 1 / 2 ^ nat (- e))"

text \<open>For \<open>x > 0\<close>, the exponent \<open>e\<close> with \<open>2^e \<le> x < 2^(e+1)\<close>: the difference of the bit
  lengths of numerator and denominator, or one less.\<close>

definition floorLog2 :: "rat \<Rightarrow> int" where
  "floorLog2 x =
     (case quotient_of x of
        (a, b) \<Rightarrow> let e = bitlen a - bitlen b in if pow2 e \<le> x then e else e - 1)"

definition roundTiesToEven :: "rat \<Rightarrow> int" where
  "roundTiesToEven x =
     (let f = \<lfloor>x\<rfloor>; r = x - of_int f
      in if r < 1 / 2 then f
         else if 1 / 2 < r then f + 1
         else if even f then f else f + 1)"

definition roundPositive :: "rat \<Rightarrow> rat" where
  "roundPositive x =
     (let e = max (floorLog2 x) (- 1022);
          ulp = pow2 (e - 52)
      in of_int (roundTiesToEven (x / ulp)) * ulp)"

definition fl :: "rat \<Rightarrow> number" where
  "fl x =
     (if x = 0 then Finite 0
      else if 0 < x then
        (let r = roundPositive x in if 1024 \<le> floorLog2 r then PosInfinity else Finite r)
      else
        (let r = roundPositive (- x) in if 1024 \<le> floorLog2 r then NegInfinity else Finite (- r)))"

text \<open>The operators \<open>-x\<close>, \<open>x + y\<close>, \<open>x - y\<close>, \<open>x * y\<close>, \<open>x / 2\<close>, \<open>x >= y\<close>, \<open>x > y\<close> and
  \<open>x >>> 0\<close> on numbers.\<close>

fun jsNeg :: "number \<Rightarrow> number" where
  "jsNeg (Finite a) = Finite (- a)"
| "jsNeg PosInfinity = NegInfinity"
| "jsNeg NegInfinity = PosInfinity"
| "jsNeg NaN = NaN"

fun jsAdd :: "number \<Rightarrow> number \<Rightarrow> number" where
  "jsAdd (Finite a) (Finite b) = fl (a + b)"
| "jsAdd NaN y = NaN"
| "jsAdd x NaN = NaN"
| "jsAdd PosInfinity NegInfinity = NaN"
| "jsAdd NegInfinity PosInfinity = NaN"
| "jsAdd PosInfinity y = PosInfinity"
| "jsAdd NegInfinity y = NegInfinity"
| "jsAdd (Finite a) y = y"

definition jsSub :: "number \<Rightarrow> number \<Rightarrow> number" where
  "jsSub x y = jsAdd x (jsNeg y)"

fun jsMul :: "number \<Rightarrow> number \<Rightarrow> number" where
  "jsMul (Finite a) (Finite b) = fl (a * b)"
| "jsMul NaN y = NaN"
| "jsMul x NaN = NaN"
| "jsMul (Finite a) y = (if a = 0 then NaN else if 0 < a then y else jsNeg y)"
| "jsMul x (Finite b) = (if b = 0 then NaN else if 0 < b then x else jsNeg x)"
| "jsMul PosInfinity y = y"
| "jsMul NegInfinity y = jsNeg y"

fun jsHalf :: "number \<Rightarrow> number" where
  "jsHalf (Finite a) = fl (a / 2)"
| "jsHalf x = x"

definition jsGe :: "number \<Rightarrow> number \<Rightarrow> bool" where
  "jsGe x y =
     (case x of
        NaN \<Rightarrow> False
      | PosInfinity \<Rightarrow> y \<noteq> NaN
      | NegInfinity \<Rightarrow> y = NegInfinity
      | Finite a \<Rightarrow> (case y of Finite b \<Rightarrow> b \<le> a | NegInfinity \<Rightarrow> True | _ \<Rightarrow> False))"

definition jsGt :: "number \<Rightarrow> number \<Rightarrow> bool" where
  "jsGt x y =
     (case x of
        NaN \<Rightarrow> False
      | PosInfinity \<Rightarrow> y \<noteq> NaN \<and> y \<noteq> PosInfinity
      | NegInfinity \<Rightarrow> False
      | Finite a \<Rightarrow> (case y of Finite b \<Rightarrow> b < a | NegInfinity \<Rightarrow> True | _ \<Rightarrow> False))"

text \<open>\<open>x >>> 0\<close>: NaN and the infinities give 0; a finite number is cut towards zero and
  reduced modulo \<open>2^32\<close>.\<close>

fun jsToUint32 :: "number \<Rightarrow> int" where
  "jsToUint32 (Finite a) = (if 0 \<le> a then \<lfloor>a\<rfloor> else - \<lfloor>- a\<rfloor>) mod 4294967296"
| "jsToUint32 x = 0"

section \<open>registerParser.js: decoding a definition\<close>

text \<open>
  A decoded value is a number or a string; \<open>null\<close> is \<open>None\<close>.  The values of the register
  map, the addresses and the lookup keys are integers.  The accumulated raw value and
  the scaled result are doubles.  For \<open>scale\<close> and \<open>offset\<close> the definition holds the
  number as it is written in the catalog (\<open>0.1\<close> is \<open>1 / 10\<close>); its value at run time is the
  nearest double, \<open>fl\<close> of it.
\<close>

datatype jsvalue = Num number | Str string

text \<open>An entry of \<open>lookup\<close>: its keys (a single key is a one-element list) and its label.\<close>

record RegisterDefinition =
  name :: string
  rule :: int
  registers :: "int list"
  scale :: "rat option"
  offset :: "rat option"
  fc :: "int option"
  lookup :: "(int list \<times> string) list option"
  homeyCapability :: "string option"

text \<open>
  The register map is a \<open>Map\<close> from address to number; \<open>registerMap.get(a)\<close> of a missing
  address is \<open>undefined\<close>, here \<open>None\<close>.  In a bitwise operation \<open>undefined\<close> converts to 0;
  a method call on it raises a TypeError.
\<close>

type_synonym registerMap = "int \<rightharpoonup> int"

definition toInt :: "int option \<Rightarrow> int" where
  "toInt v = (case v of None \<Rightarrow> 0 | Some x \<Rightarrow> x)"

text \<open>Decimal and hexadecimal rendering of a number (\<open>String(n)\<close>, \<open>n.toString(16)\<close>).\<close>

definition digitChar :: "nat \<Rightarrow> char" where
  "digitChar n = ''0123456789abcdef'' ! n"

function digitsOf :: "nat \<Rightarrow> nat \<Rightarrow> string" where
  "digitsOf base n =
     (if base < 2 \<or> n < base then [digitChar n]
      else digitsOf base (n div base) @ [digitChar (n mod base)])"
  by pat_completeness auto
termination
  by (relation "measure (\<lambda>(base, n). n)") auto

declare digitsOf.simps [simp del]

definition toStringRadix :: "nat \<Rightarrow> int \<Rightarrow> string" where
  "toStringRadix base n =
     (if n < 0 then CHR ''-'' # digitsOf base (nat (- n)) else digitsOf base (nat n))"

definition padStart :: "nat \<Rightarrow> char \<Rightarrow> string \<Rightarrow> string" where
  "padStart n c s = replicate (n - length s) c @ s"

definition join :: "string \<Rightarrow> string list \<Rightarrow> string" where
  "join sep xs = (case xs of [] \<Rightarrow> [] | y # ys \<Rightarrow> foldl (\<lambda>acc s. acc @ sep @ s) y ys)"

text \<open>\<open>str.trim()\<close>: the white space and line terminators among the code units below 256.\<close>

definition isWhiteSpace :: "char \<Rightarrow> bool" where
  "isWhiteSpace c = ((of_char c :: nat) \<in> {9, 10, 11, 12, 13, 32, 160})"

definition trim :: "string \<Rightarrow> string" where
  "trim s = rev (dropWhile isWhiteSpace (rev (dropWhile isWhiteSpace s)))"

text \<open>The accumulation loop of rules 1 to 4:
  \<open>for (i = 0; i < regs.length; i++) raw += (registerMap.get(regs[i]) & 0xffff) * Math.pow(2, 16 * i)\<close>.\<close>

function accumulate :: "registerMap \<Rightarrow> int list \<Rightarrow> nat \<Rightarrow> number \<Rightarrow> number" where
  "accumulate registerMap regs i raw =
     (if i < length regs
      then accumulate registerMap regs (i + 1)
             (jsAdd raw
                (jsMul (Finite (of_int (toInt (registerMap (regs ! i)) AND 0xFFFF)))
                       (fl (2 ^ (16 * i)))))
      else raw)"
  by pat_completeness auto
termination
  by (relation "measure (\<lambda>(registerMap, regs, i, raw). length regs - i)") auto

declare accumulate.simps [simp del]

text \<open>The lookup loop: the label of the first entry whose keys include \<open>raw\<close>.\<close>

fun lookupLabel :: "(int list \<times> string) list \<Rightarrow> int \<Rightarrow> string option" where
  "lookupLabel [] raw = None"
| "lookupLabel ((keys, label) # entries) raw =
     (if raw \<in> set keys then Some label else lookupLabel entries raw)"

text \<open>Rule 5, the body of the loop over the registers, and rules 6 and 7, the function
  mapped over them.\<close>

definition asciiOf :: "int option \<Rightarrow> string" where
  "asciiOf r =
     (let hi = (drop_bit 8 (toInt r)) AND 0xFF;
          lo = toInt r AND 0xFF
      in (if hi \<noteq> 0 then [char_of hi] else []) @ (if lo \<noteq> 0 then [char_of lo] else []))"

definition hexToken :: "int option \<Rightarrow> error + string" where
  "hexToken r =
     (case r of
        None \<Rightarrow> Inl TypeError
      | Some v \<Rightarrow> Inr (''0x'' @ padStart 4 (CHR ''0'') (toStringRadix 16 v)))"

fun mapE :: "('a \<Rightarrow> error + 'b) \<Rightarrow> 'a list \<Rightarrow> error + 'b list" where
  "mapE f [] = Inr []"
| "mapE f (x # xs) = bindE (f x) (\<lambda>y. bindE (mapE f xs) (\<lambda>ys. Inr (y # ys)))"

definition versionToken :: "int option \<Rightarrow> string" where
  "versionToken r =
     toStringRadix 10 ((drop_bit 12 (toInt r)) AND 0xF) @ ''.'' @
     toStringRadix 10 ((drop_bit 8 (toInt r)) AND 0xF) @ ''.'' @
     toStringRadix 10 ((drop_bit 4 (toInt r)) AND 0xF) @ ''.'' @
     toStringRadix 10 (toInt r AND 0xF)"

text \<open>\<open>decodeRegister\<close>.  The first loop returns \<open>null\<close> at the first missing address.
  \<open>Math.pow(2, k)\<close> is \<open>fl (2 ^ k)\<close>, infinite from \<open>k = 1024\<close> on.  After \<open>raw >>> 0\<close> the raw
  value of rules 1 and 3 is an integer below \<open>2^32\<close>.\<close>

definition decodeRegister :: "RegisterDefinition \<Rightarrow> registerMap \<Rightarrow> error + jsvalue option" where
  "decodeRegister d registerMap =
     (let regs = registers d in
      if list_ex (\<lambda>addr. registerMap addr = None) regs then Inr None
      else
        let scale = (case scale d of None \<Rightarrow> Finite 1 | Some s \<Rightarrow> fl s);
            offset = (case offset d of None \<Rightarrow> Finite 0 | Some s \<Rightarrow> fl s)
        in
        if rule d = 1 \<or> rule d = 3 then
          (let raw = jsToUint32 (accumulate registerMap regs 0 (Finite 0)) in
           case lookup d of
             Some entries \<Rightarrow>
               (case lookupLabel entries raw of
                  Some label \<Rightarrow> Inr (Some (Str label))
                | None \<Rightarrow> Inr (Some (Str (''Unknown('' @ toStringRadix 10 raw @ '')''))))
           | None \<Rightarrow> Inr (Some (Num (jsMul (jsSub (Finite (of_int raw)) offset) scale))))
        else if rule d = 2 \<or> rule d = 4 then
          (let raw = accumulate registerMap regs 0 (Finite 0);
               bits = 16 * length regs;
               wrap = fl (2 ^ bits);
               threshold = jsHalf wrap;
               raw = (if jsGe raw threshold then jsSub raw wrap else raw)
           in Inr (Some (Num (jsMul (jsSub raw offset) scale))))
        else if rule d = 5 then
          Inr (Some (Str (trim (concat (map (\<lambda>addr. asciiOf (registerMap addr)) regs)))))
        else if rule d = 6 then
          bindE (mapE (\<lambda>a. hexToken (registerMap a)) regs) (\<lambda>toks.
            Inr (Some (Str (join '','' toks))))
        else if rule d = 7 then
          Inr (Some (Str (join ''-'' (map (\<lambda>a. versionToken (registerMap a)) regs))))
        else Inr None)"

text \<open>The formula of the specification for the raw value of rules 1 to 4:
  the sum of \<open>(map[addr_i] & 0xFFFF) * 2^(16 i)\<close>, low register first.\<close>

definition spec_raw :: "registerMap \<Rightarrow> int list \<Rightarrow> int" where
  "spec_raw registerMap regs =
     (\<Sum>i < length regs. (toInt (registerMap (regs ! i)) AND 0xFFFF) * 2 ^ (16 * i))"

section \<open>registerParser.js: planning the reads\<close>

text \<open>
  A request \<open>{fc, start, count}\<close>.  When the address set of a function code is empty,
  \<open>sorted[0]\<close> is \<open>undefined\<close> and the request pushed has \<open>start: undefined\<close> and
  \<open>count: NaN\<close>: that is \<open>UndefinedRequest\<close>.
\<close>

datatype readRequest =
    ReadRequest (rfc: int) (rstart: int) (rcount: int)
  | UndefinedRequest int

text \<open>\<open>byFc\<close> is a \<open>Map\<close> from function code to a \<open>Set\<close> of addresses; both keep insertion
  order and ignore a second insertion: an association list of lists.\<close>

definition setAdd :: "int list \<Rightarrow> int \<Rightarrow> int list" where
  "setAdd s a = (if a \<in> set s then s else s @ [a])"

fun byFcAdd :: "(int \<times> int list) list \<Rightarrow> int \<Rightarrow> int list \<Rightarrow> (int \<times> int list) list" where
  "byFcAdd [] f addrs = [(f, foldl setAdd [] addrs)]"
| "byFcAdd ((g, s) # rest) f addrs =
     (if g = f then (g, foldl setAdd s addrs) # rest else (g, s) # byFcAdd rest f addrs)"

text \<open>The function code of a definition: \<open>def.fc ?? 3\<close>.\<close>

definition fcOf :: "RegisterDefinition \<Rightarrow> int" where
  "fcOf d = (case fc d of None \<Rightarrow> 3 | Some f \<Rightarrow> f)"

definition groupByFc :: "RegisterDefinition list \<Rightarrow> (int \<times> int list) list" where
  "groupByFc definitions =
     foldl (\<lambda>byFc d. byFcAdd byFc (fcOf d) (registers d)) [] definitions"

text \<open>The merging loop over \<open>sorted[1..]\<close>, with the current \<open>start\<close> and \<open>end\<close>; the last
  equation is the push after the loop.\<close>

fun mergeRanges :: "int \<Rightarrow> int \<Rightarrow> int \<Rightarrow> int \<Rightarrow> int list \<Rightarrow> readRequest list" where
  "mergeRanges f maxCount start end [] = [ReadRequest f start (end - start + 1)]"
| "mergeRanges f maxCount start end (addr # rest) =
     (if addr - start < maxCount then mergeRanges f maxCount start addr rest
      else ReadRequest f start (end - start + 1) # mergeRanges f maxCount addr addr rest)"

definition requestsFor :: "int \<Rightarrow> int \<Rightarrow> int list \<Rightarrow> readRequest list" where
  "requestsFor maxCount f addrSet =
     (case sort addrSet of
        [] \<Rightarrow> [UndefinedRequest f]
      | first # rest \<Rightarrow> mergeRanges f maxCount first first rest)"

definition buildReadRequests :: "RegisterDefinition list \<Rightarrow> int \<Rightarrow> readRequest list" where
  "buildReadRequests definitions maxCount =
     concat (map (\<lambda>(f, addrSet). requestsFor maxCount f addrSet) (groupByFc definitions))"

text \<open>An address lies in the range \<open>[start, start + count - 1]\<close> of a request of function
  code \<open>f\<close>.\<close>

fun covers :: "int \<Rightarrow> int \<Rightarrow> readRequest \<Rightarrow> bool" where
  "covers f a (ReadRequest g s c) = (g = f \<and> s \<le> a \<and> a \<le> s + c - 1)"
| "covers f a (UndefinedRequest g) = False"

fun hasFc :: "int \<Rightarrow> readRequest \<Rightarrow> bool" where
  "hasFc f (ReadRequest g s c) = (g = f)"
| "hasFc f (UndefinedRequest g) = (g = f)"

text \<open>One request ends before the next one starts.\<close>

fun endsBefore :: "readRequest \<Rightarrow> readRequest \<Rightarrow> bool" where
  "endsBefore (ReadRequest g s c) (ReadRequest g' s' c') = (s + c - 1 < s')"
| "endsBefore r r' = False"

fun countAtMost :: "int \<Rightarrow> readRequest \<Rightarrow> bool" where
  "countAtMost b (ReadRequest g s c) = (c \<le> b)"
| "countAtMost b (UndefinedRequest g) = False"

text \<open>
  The decoding of rules 1 and 3 as the specification words it, in exact arithmetic: the
  raw value is the sum above; with a lookup table the label whose key matches, else
  \<open>Unknown(raw)\<close>; without one, \<open>(raw - offset) * scale\<close>, offset 0 and scale 1 by default.
\<close>

definition spec_decodeUnsigned :: "RegisterDefinition \<Rightarrow> registerMap \<Rightarrow> jsvalue" where
  "spec_decodeUnsigned d registerMap =
     (let raw = spec_raw registerMap (registers d) in
      case lookup d of
        Some entries \<Rightarrow>
          (case lookupLabel entries raw of
             Some label \<Rightarrow> Str label
           | None \<Rightarrow> Str (''Unknown('' @ toStringRadix 10 raw @ '')''))
      | None \<Rightarrow>
          Num (Finite ((of_int raw - (case offset d of None \<Rightarrow> 0 | Some s \<Rightarrow> s))
                        * (case scale d of None \<Rightarrow> 1 | Some s \<Rightarrow> s))))"

text \<open>The scaled result in double arithmetic: \<open>(raw - offset) * scale\<close> for an integer
  \<open>raw\<close>, each operation rounded.\<close>

definition scaled :: "RegisterDefinition \<Rightarrow> int \<Rightarrow> number" where
  "scaled d raw =
     jsMul (jsSub (Finite (of_int raw)) (case offset d of None \<Rightarrow> Finite 0 | Some s \<Rightarrow> fl s))
           (case scale d of None \<Rightarrow> Finite 1 | Some s \<Rightarrow> fl s)"

text \<open>The decoding of rules 1 and 3 with the raw value reduced modulo \<open>2^32\<close>, as
  \<open>raw >>> 0\<close> does, and the result in double arithmetic.\<close>

definition decodeUnsigned32 :: "RegisterDefinition \<Rightarrow> registerMap \<Rightarrow> jsvalue" where
  "decodeUnsigned32 d registerMap =
     (let raw = spec_raw registerMap (registers d) mod 2 ^ 32 in
      case lookup d of
        Some entries \<Rightarrow>
          (case lookupLabel entries raw of
             Some label \<Rightarrow> Str label
           | None \<Rightarrow> Str (''Unknown('' @ toStringRadix 10 raw @ '')''))
      | None \<Rightarrow> Num (scaled d raw))"

text \<open>Two's-complement sign extension over \<open>16 n\<close> bits, as the specification words it.
  Without a register the threshold \<open>2^(-1)\<close> is a fraction; over the integers it is the
  threshold 1.\<close>

definition spec_signExtend :: "nat \<Rightarrow> int \<Rightarrow> int" where
  "spec_signExtend n raw = (if raw \<ge> 2 ^ (16 * n - 1) then raw - 2 ^ (16 * n) else raw)"

text \<open>The decoding of rules 2 and 4 as the specification words it, in exact arithmetic:
  the same sum, sign-extended over \<open>16 N\<close> bits, then \<open>(raw - offset) * scale\<close>.\<close>

definition spec_decodeSigned :: "RegisterDefinition \<Rightarrow> registerMap \<Rightarrow> jsvalue" where
  "spec_decodeSigned d registerMap =
     Num (Finite ((of_int (spec_signExtend (length (registers d))
                             (spec_raw registerMap (registers d)))
                    - (case offset d of None \<Rightarrow> 0 | Some s \<Rightarrow> s))
                  * (case scale d of None \<Rightarrow> 1 | Some s \<Rightarrow> s)))"

text \<open>A request of function code \<open>f\<close> with a count between 1 and \<open>b\<close>, and a request
  that starts at \<open>lo\<close> or later.\<close>

fun validRequest :: "int \<Rightarrow> int \<Rightarrow> readRequest \<Rightarrow> bool" where
  "validRequest b f (ReadRequest g s c) = (g = f \<and> 1 \<le> c \<and> c \<le> b)"
| "validRequest b f (UndefinedRequest g) = False"

fun startsFrom :: "int \<Rightarrow> readRequest \<Rightarrow> bool" where
  "startsFrom lo (ReadRequest g s c) = (lo \<le> s)"
| "startsFrom lo (UndefinedRequest g) = False"

section \<open>DeyeDevice.js: the polling scheduler\<close>

text \<open>
  The host platform (Homey) is modelled by what the device reads and writes there: the
  capabilities the device has, the value stored for each capability, the availability
  signal and the journal written by \<open>this.log\<close> and \<open>this.error\<close>.  \<open>setCapabilityValue\<close>
  and \<open>setAvailable\<close> are taken to store what they are given; their rejections are
  swallowed by the source.  The text shown for an unavailable device is the host's
  translation of \<open>device.unavailable\<close> with the error message inserted; the model keeps the
  error message.  The client and its socket, which \<open>onInit\<close> creates and the \<open>catch\<close> block
  closes, are not part of the state; \<open>deviceName\<close> is what \<open>getName()\<close> returns.
\<close>

datatype capvalue = CNum number | CStr string | CBool bool

datatype availability = Available | Unavailable string

datatype logline = Log string string | Error string string

record device =
  deviceName :: string
  definitions :: "RegisterDefinition list"
  capabilities :: "string list"
  capabilityValues :: "string \<rightharpoonup> capvalue"
  availability :: availability
  lastPowerW :: number
  backoffUntil :: int
  polling :: bool
  journal :: "logline list"

definition POLL_INTERVAL_MS :: int where "POLL_INTERVAL_MS = 60000"
definition NIGHT_BACKOFF_MS :: int where "NIGHT_BACKOFF_MS = 30 * 60 * 1000"
definition POWER_THRESHOLD_W :: number where "POWER_THRESHOLD_W = Finite 5"

text \<open>\<open>onInit\<close> writes a line to the journal and resets the three scheduler fields; the
  timers it starts are the \<open>Tick\<close> events of the transition system below.\<close>

definition onInit :: "device \<Rightarrow> device" where
  "onInit d =
     d\<lparr>journal := journal d @ [Log ''DeyeDevice init v1.2:'' (deviceName d)],
       lastPowerW := Finite 0, backoffUntil := 0, polling := False\<rparr>"

definition setCapabilityValue :: "device \<Rightarrow> string \<Rightarrow> capvalue \<Rightarrow> device" where
  "setCapabilityValue d capId v = d\<lparr>capabilityValues := (capabilityValues d)(capId \<mapsto> v)\<rparr>"

text \<open>\<open>_applyZeros\<close>: the list \<open>caps\<close> of the source, filtered by \<open>hasCapability\<close>.\<close>

definition zeroCaps :: "string list" where
  "zeroCaps =
     [''measure_power'',
      ''measure_voltage.pv1'', ''measure_current.pv1'',
      ''measure_voltage.pv2'', ''measure_current.pv2'',
      ''measure_voltage.pv3'', ''measure_current.pv3'',
      ''measure_voltage.pv4'', ''measure_current.pv4'',
      ''measure_voltage.grid'', ''measure_current.grid'',
      ''measure_frequency'',
      ''measure_temperature'']"



definition applyZeros :: "device \<Rightarrow> device" where
  "applyZeros d =
     (foldl (\<lambda>d' c. setCapabilityValue d' c (CNum (Finite 0))) d
        (filter (\<lambda>c. c \<in> set (capabilities d)) zeroCaps))
     \<lparr>lastPowerW := Finite 0\<rparr>"

text \<open>
  \<open>_poll\<close> is asynchronous.  Its first three statements run when the timer fires
  (\<open>pollTick\<close>: the result says whether \<open>readAll\<close> was started); the rest runs when
  \<open>readAll\<close> settles: \<open>pollSucceeded\<close> is the remainder of the \<open>try\<close> block and
  \<open>pollFailed\<close> the \<open>catch\<close> block, each followed by the \<open>finally\<close> block.  Whether it is
  night (\<open>_isNight\<close>, computed from the clock and the geolocation) and the time
  \<open>Date.now()\<close> are inputs.
\<close>

definition pollTick :: "device \<Rightarrow> int \<Rightarrow> device \<times> bool" where
  "pollTick d now =
     (if now < backoffUntil d then (d, False)
      else if polling d then (d, False)
      else (d\<lparr>polling := True\<rparr>, True))"

definition coerce :: "string \<Rightarrow> jsvalue \<Rightarrow> capvalue" where
  "coerce capId v =
     (if capId = ''alarm_generic'' then CBool (v = Str ''Fault'' \<or> v = Str ''Alarm'')
      else (case v of Num x \<Rightarrow> CNum x | Str s \<Rightarrow> CStr s))"

definition applyValue :: "(string \<rightharpoonup> jsvalue) \<Rightarrow> device \<Rightarrow> RegisterDefinition \<Rightarrow> device" where
  "applyValue values d def =
     (case homeyCapability def of
        None \<Rightarrow> d
      | Some capId \<Rightarrow>
          if capId = [] then d
          else (case values (name def) of
                  None \<Rightarrow> d
                | Some v \<Rightarrow>
                    if capId \<notin> set (capabilities d) then d
                    else
                      let d' = setCapabilityValue d capId (coerce capId v)
                      in if capId = ''measure_power''
                         then d'\<lparr>lastPowerW := (case v of Num x \<Rightarrow> x | Str s \<Rightarrow> Finite 0)\<rparr>
                         else d'))"

definition pollSucceeded :: "device \<Rightarrow> (string \<rightharpoonup> jsvalue) \<Rightarrow> device" where
  "pollSucceeded d values =
     (foldl (applyValue values) (d\<lparr>availability := Available\<rparr>) (definitions d))
     \<lparr>polling := False\<rparr>"

definition pollFailed :: "device \<Rightarrow> string \<Rightarrow> bool \<Rightarrow> int \<Rightarrow> device" where
  "pollFailed d err isNight now =
     (if isNight then
        (applyZeros d)
          \<lparr>availability := Available,
           journal := journal d @ [Log ''poll: night timeout (expected), backing off 30 min:'' err],
           backoffUntil := now + NIGHT_BACKOFF_MS\<rparr>
      else if jsGt (lastPowerW d) POWER_THRESHOLD_W then
        d\<lparr>journal := journal d @ [Error ''Poll failed (inverter was active):'' err],
          availability := Unavailable err\<rparr>
      else
        d\<lparr>journal := journal d @ [Log ''Poll failed (inverter idle):'' err]\<rparr>)
     \<lparr>polling := False\<rparr>"

text \<open>
  The scheduler as a transition system.  The timer fires (\<open>Tick\<close>, with the time read by
  \<open>Date.now()\<close>), a cycle that was started settles (\<open>Succeeded\<close> with the snapshot, or
  \<open>Failed\<close> with the error message, whether it is night, and the time), and the device is
  initialised again (\<open>Reinit\<close>: \<open>onSettings\<close> runs \<open>onUninit\<close>, then \<open>onInit\<close>).  Next to the
  device the system counts the cycles in flight: started and not yet settled.  Only a
  cycle in flight can settle.  \<open>onUninit\<close> settles no cycle: \<open>disconnect\<close> destroys the socket
  of an established connection, and a cycle that is still connecting has none, so the
  cycles in flight stay in flight across \<open>Reinit\<close>.
\<close>

datatype event =
    Tick int
  | Succeeded "string \<rightharpoonup> jsvalue"
  | Failed string bool int
  | Reinit

fun schedule :: "device \<times> nat \<Rightarrow> event \<Rightarrow> device \<times> nat" where
  "schedule (d, inFlight) (Tick now) =
     (case pollTick d now of (d', started) \<Rightarrow> (d', if started then inFlight + 1 else inFlight))"
| "schedule (d, inFlight) (Succeeded values) =
     (if inFlight = 0 then (d, inFlight) else (pollSucceeded d values, inFlight - 1))"
| "schedule (d, inFlight) (Failed err isNight now) =
     (if inFlight = 0 then (d, inFlight) else (pollFailed d err isNight now, inFlight - 1))"
| "schedule (d, inFlight) Reinit = (onInit d, inFlight)"



text \<open>A successful cycle writes the power reading: some definition bound to
  \<open>measure_power\<close> has a value in the snapshot, and the device has that capability.\<close>

definition updatesPower :: "device \<Rightarrow> (string \<rightharpoonup> jsvalue) \<Rightarrow> bool" where
  "updatesPower d values =
     (''measure_power'' \<in> set (capabilities d) \<and>
      list_ex (\<lambda>def. homeyCapability def = Some ''measure_power'' \<and> values (name def) \<noteq> None)
        (definitions d))"

text \<open>The events between two writes of the power reading: every event but a successful
  cycle that writes it.\<close>

fun keepsPower :: "device \<Rightarrow> event \<Rightarrow> bool" where
  "keepsPower d (Succeeded values) = (\<not> updatesPower d values)"
| "keepsPower d e = True"


text \<open>The state after a night failure, kept by every event that does not write the power
  reading: no power on record and the device available (\<open>d\<close> is the device before, for
  its capabilities and definitions, which no event changes).\<close>

definition asleep :: "device \<Rightarrow> device \<times> nat \<Rightarrow> bool" where
  "asleep d s = (lastPowerW (fst s) = Finite 0 \<and> availability (fst s) = Available
                  \<and> capabilities (fst s) = capabilities d \<and> definitions (fst s) = definitions d)"



section \<open>Properties of the outer frame\<close>

lemma bindE_Inl: "bindE (Inl e) f = Inl e"
  by (simp add: bindE_def)

lemma bindE_Inr: "bindE (Inr x) f = f x"
  by (simp add: bindE_def)

lemma bindE_eq_Inr: "bindE m f = Inr y \<longleftrightarrow> (\<exists>x. m = Inr x \<and> f x = Inr y)"
  by (cases m) (simp_all add: bindE_def)

lemma writeUInt16LE_request_code: "writeUInt16LE V5_CTRL_REQUEST = Inr [0x10, 0x45]"
  by (simp add: writeUInt16LE_def V5_CTRL_REQUEST_def)

lemma writeUInt16LE_two_bytes: "writeUInt16LE v = Inr b \<Longrightarrow> \<exists>b0 b1. b = [b0, b1]"
  by (auto simp: writeUInt16LE_def split: if_splits)

lemma writeUInt16LE_in_range: "0 \<le> v \<Longrightarrow> v \<le> 65535 \<Longrightarrow> \<exists>b. writeUInt16LE v = Inr b"
  by (simp add: writeUInt16LE_def)

lemma writeUInt32LE_four_bytes:
  "writeUInt32LE v = Inr b \<Longrightarrow> \<exists>b0 b1 b2 b3. b = [b0, b1, b2, b3]"
  by (auto simp: writeUInt32LE_def split: if_splits)

lemma writeUInt32LE_toUint32: "\<exists>b. writeUInt32LE (toUint32 v) = Inr b"
proof -
  have "0 \<le> v mod 4294967296" and "v mod 4294967296 < 4294967296"
    by simp_all
  then have "\<not> (v mod 4294967296 < 0 \<or> 4294967295 < v mod 4294967296)"
    by linarith
  then show ?thesis
    unfolding writeUInt32LE_def toUint32_def by (simp only: if_False) blast
qed

text \<open>Every frame that \<open>encodeV5Frame\<close> returns is a request frame: the fixed bytes of the
  header, the 15-byte prefix, the ADU, a checksum and the end marker.\<close>

lemma encodeV5Frame_shape:
  assumes "encodeV5Frame adu s q = Inr f"
  shows "\<exists>p0 p1 q0 q1 s0 s1 s2 s3 cs.
           f = [0xA5, p0, p1, 0x10, 0x45, q0, q1, s0, s1, s2, s3, 0x02]
                 @ replicate 14 0 @ adu @ [cs, 0x15]"
proof -
  from assms obtain pl sq ser where
    pl: "writeUInt16LE (15 + int (length adu)) = Inr pl" and
    sq: "writeUInt16LE q = Inr sq" and
    ser: "writeUInt32LE (toUint32 s) = Inr ser" and
    f: "f = ([V5_START] @ pl @ [0x10, 0x45] @ sq @ ser @ [0x02] @ replicate 14 0 @ adu)
          @ [v5Checksum (([V5_START] @ pl @ [0x10, 0x45] @ sq @ ser @ [0x02]
                            @ replicate 14 0 @ adu) @ [0, 0]), V5_END]"
    unfolding encodeV5Frame_def Let_def writeUInt16LE_request_code bindE_eq_Inr bindE_Inr
    by auto
  from writeUInt16LE_two_bytes [OF pl] obtain p0 p1 where "pl = [p0, p1]" by blast
  moreover from writeUInt16LE_two_bytes [OF sq] obtain q0 q1 where "sq = [q0, q1]" by blast
  moreover from writeUInt32LE_four_bytes [OF ser] obtain s0 s1 s2 s3
    where "ser = [s0, s1, s2, s3]" by blast
  ultimately show ?thesis
    unfolding f by (simp add: V5_START_def V5_END_def)
qed

lemma encodeV5Frame_succeeds:
  assumes "length adu \<le> 65520" and "0 \<le> q" and "q \<le> 65535"
  shows "\<exists>f. encodeV5Frame adu s q = Inr f"
proof -
  from assms(1) obtain pl where "writeUInt16LE (15 + int (length adu)) = Inr pl"
    using writeUInt16LE_in_range [of "15 + int (length adu)"] by auto
  moreover from assms(2,3) obtain sq where "writeUInt16LE q = Inr sq"
    using writeUInt16LE_in_range by blast
  moreover obtain ser where "writeUInt32LE (toUint32 s) = Inr ser"
    using writeUInt32LE_toUint32 by blast
  ultimately show ?thesis
    by (simp add: encodeV5Frame_def Let_def writeUInt16LE_request_code bindE_Inr)
qed

lemma decodeV5Frame_request_shape:
  "decodeV5Frame ([0xA5, p0, p1, 0x10, 0x45, q0, q1, s0, s1, s2, s3, 0x02]
                    @ replicate 14 0 @ adu @ [cs, 0x15])
     = Inl (UnexpectedV5Ctrl 0x4510)"
  by (simp add: decodeV5Frame_def readUInt16LE_def V5_START_def V5_END_def
      V5_CTRL_RESPONSE_def bindE_Inr)

lemma decodeV5Frame_encodeV5Frame:
  "encodeV5Frame adu s q = Inr f \<Longrightarrow> decodeV5Frame f = Inl (UnexpectedV5Ctrl 0x4510)"
  using encodeV5Frame_shape decodeV5Frame_request_shape by blast

lemma encodeV5Frame_carries_adu:
  "encodeV5Frame adu s q = Inr f \<Longrightarrow>
     length f = 28 + length adu \<and> take (length adu) (drop 26 f) = adu"
  using encodeV5Frame_shape [of adu s q f] by auto

text \<open>What \<open>decodeV5Frame\<close> recovers is the ADU of a response frame: control code
  \<open>0x1510\<close>, a prefix of 14 bytes, and a payload length of \<open>14 + length adu\<close>; a trailing
  pair of zero bytes of the ADU is dropped.\<close>

lemma decodeV5Frame_response:
  assumes "length prefix = 14" and "length adu \<le> 65521"
    and "writeUInt16LE (14 + int (length adu)) = Inr [p0, p1]"
  shows "decodeV5Frame ([0xA5, p0, p1, 0x10, 0x15, q0, q1, s0, s1, s2, s3] @ prefix @ adu @ [cs, 0x15])
           = Inr (stripTrailingZeros adu)"
proof -
  let ?n = "14 + int (length adu)"
  from assms(3) have p: "p0 = word_of_int (?n mod 256)" "p1 = word_of_int (?n div 256)"
    by (simp_all add: writeUInt16LE_def split: if_splits)
  have m: "0 \<le> ?n mod 256" "?n mod 256 < 256" by simp_all
  have d: "0 \<le> ?n div 256" "?n div 256 < 256" using assms(2) by simp_all
  have u0: "unat p0 = nat (?n mod 256)"
    unfolding p using m by (simp add: unat_eq_nat_uint uint_word_of_int take_bit_eq_mod)
  have u1: "unat p1 = nat (?n div 256)"
    unfolding p using d by (simp add: unat_eq_nat_uint uint_word_of_int take_bit_eq_mod)
  have "int (unat p0 + 256 * unat p1) = ?n mod 256 + 256 * (?n div 256)"
    unfolding u0 u1 using m d by simp
  also have "\<dots> = ?n" by simp
  finally have "int (unat p0 + 256 * unat p1) = int (14 + length adu)" by simp
  then have len: "unat p0 + 256 * unat p1 = 14 + length adu"
    by (simp only: of_nat_eq_iff)
  show ?thesis
    using assms(1) len
    by (simp add: decodeV5Frame_def readUInt16LE_def V5_START_def V5_END_def
        V5_CTRL_RESPONSE_def bindE_Inr)
qed

text \<open>
  Claim C1, as stated: decoding the frame built by \<open>encodeV5Frame\<close> gives back the ADU.
  It fails: for the RTU request \<open>01 03 00 3B 00 01 F5 C7\<close>, logger serial 1782317166 and
  sequence number 1, \<open>decodeV5Frame\<close> of the built frame is the error
  "Unexpected V5 control code: 0x4510".
\<close>

theorem C1_roundtrip_counterexample:
  "v5_roundtrip [0x01, 0x03, 0x00, 0x3B, 0x00, 0x01, 0xF5, 0xC7] 1782317166 1
     \<noteq> Inr [0x01, 0x03, 0x00, 0x3B, 0x00, 0x01, 0xF5, 0xC7]"
  by (simp add: v5_roundtrip_def encodeV5Frame_def writeUInt16LE_def writeUInt32LE_def
      toUint32_def V5_CTRL_REQUEST_def V5_START_def V5_END_def decodeV5Frame_def
      readUInt16LE_def V5_CTRL_RESPONSE_def bindE_def)

text \<open>
  Claim C1, amended: \<open>encodeV5Frame\<close> builds request frames (control code 0x4510,
  15-byte prefix) and \<open>decodeV5Frame\<close> accepts response frames only (control code 0x1510).
  For every ADU of at most 65520 bytes, every logger serial and every sequence number in
  \<open>0 .. 65535\<close>, \<open>encodeV5Frame\<close> returns a frame of \<open>28 + length adu\<close> bytes that holds the
  ADU unchanged at offset 26, and \<open>decodeV5Frame\<close> rejects that frame with the error
  "Unexpected V5 control code: 0x4510".
\<close>

theorem C1_encoded_frame_is_request:
  assumes "length adu \<le> 65520" and "0 \<le> seqno" and "seqno \<le> 65535"
  shows "\<exists>frame. encodeV5Frame adu serial seqno = Inr frame
           \<and> length frame = 28 + length adu
           \<and> take (length adu) (drop 26 frame) = adu
           \<and> decodeV5Frame frame = Inl (UnexpectedV5Ctrl 0x4510)
           \<and> v5_roundtrip adu serial seqno = Inl (UnexpectedV5Ctrl 0x4510)"
proof -
  from encodeV5Frame_succeeds [OF assms] obtain frame
    where f: "encodeV5Frame adu serial seqno = Inr frame" by blast
  have "v5_roundtrip adu serial seqno = decodeV5Frame frame"
    by (simp add: v5_roundtrip_def f bindE_Inr)
  with f decodeV5Frame_encodeV5Frame [OF f] encodeV5Frame_carries_adu [OF f]
  show ?thesis by simp
qed

theorem C1_encoded_frame_is_request_witness:
  "length [0x00, 0x07, 0x00, 0x00, 0x00, 0x06, 0x01, 0x03, 0x00, 0x3B, 0x00, 0x01 :: byte] \<le> 65520
   \<and> (0::int) \<le> 1 \<and> (1::int) \<le> 65535
   \<and> (\<exists>frame. encodeV5Frame [0x00, 0x07, 0x00, 0x00, 0x00, 0x06, 0x01, 0x03, 0x00, 0x3B, 0x00, 0x01]
                  1782317166 1 = Inr frame
        \<and> length frame = 40
        \<and> decodeV5Frame frame = Inl (UnexpectedV5Ctrl 0x4510))"
  using C1_encoded_frame_is_request
          [of "[0x00, 0x07, 0x00, 0x00, 0x00, 0x06, 0x01, 0x03, 0x00, 0x3B, 0x00, 0x01]" 1 1782317166]
  by auto

section \<open>Properties of the response parser and of the client\<close>

lemma funpow_8: "(f ^^ 8) x = f (f (f (f (f (f (f (f x)))))))"
  by (simp add: eval_nat_numeral)

lemma replicate_14: "replicate 14 x = [x, x, x, x, x, x, x, x, x, x, x, x, x, x]"
  by (simp add: eval_nat_numeral)

text \<open>The CRC of the reference request \<open>01 03 00 00 00 01\<close> is \<open>84 0A\<close> on the wire.\<close>

lemma crc16_reference_vector: "crc16 [0x01, 0x03, 0x00, 0x00, 0x00, 0x01] = 0x0A84"
  by (simp add: crc16_def crc16_byte_def crc16_bit_def funpow_8)

lemma crc16_read_3B: "crc16 [0x01, 0x03, 0x00, 0x3B, 0x00, 0x01] = 0xC7F5"
  by (simp add: crc16_def crc16_byte_def crc16_bit_def funpow_8)

lemma readValues_done:
  "\<not> i < byteCount \<Longrightarrow> readValues adu start byteCount i values = Inr values"
  by (subst readValues.simps) simp

lemma readValues_step:
  "i < byteCount \<Longrightarrow>
     readValues adu start byteCount i values =
       (case readUInt16BE adu (start + i) of
          Inl e \<Rightarrow> Inl e
        | Inr v \<Rightarrow> readValues adu start byteCount (i + 2) (values @ [v]))"
  by (subst readValues.simps) simp

lemmas eval_frame =
  buildModbusRtuFrame_def buildModbusTcpFrame_def writeUInt16BE_def writeUInt16LE_def
  writeUInt32LE_def toUint32_def bindE_Inr bindE_Inl encodeV5Frame_def decodeV5Frame_def
  readUInt16LE_def V5_CTRL_REQUEST_def V5_CTRL_RESPONSE_def V5_START_def V5_END_def
  v5Checksum_def replicate_14 stripTrailingZeros_def

lemmas eval_parse =
  parseRegistersAuto_def parseTcpPath_def parseRtuPath_def looksLikeModbusTcp_def
  MODBUS_TCP_HEADER_LEN_def readUInt16BE_def peekUInt16BE_def readValues_step readValues_done

lemma rtu_request_3B:
  "buildModbusRtuFrame 1 3 59 1 = Inr [0x01, 0x03, 0x00, 0x3B, 0x00, 0x01, 0xF5, 0xC7]"
  by (simp add: eval_frame crc16_read_3B)

lemma tcp_request_3B:
  "buildModbusTcpFrame 1 1 3 59 1
     = Inr [0x00, 0x01, 0x00, 0x00, 0x00, 0x06, 0x01, 0x03, 0x00, 0x3B, 0x00, 0x01]"
  by (simp add: eval_frame)

lemma v5_request_rtu_3B:
  "encodeV5Frame [0x01, 0x03, 0x00, 0x3B, 0x00, 0x01, 0xF5, 0xC7] 1782317166 1 =
     Inr [165, 23, 0, 16, 69, 1, 0, 110, 0, 60, 106, 2, 0, 0, 0, 0, 0, 0, 0, 0,
          0, 0, 0, 0, 0, 0, 1, 3, 0, 59, 0, 1, 245, 199, 127, 21]"
  by (simp add: eval_frame)

lemma v5_request_tcp_3B:
  "encodeV5Frame [0x00, 0x01, 0x00, 0x00, 0x00, 0x06, 0x01, 0x03, 0x00, 0x3B, 0x00, 0x01]
       1782317166 2 =
     Inr [165, 27, 0, 16, 69, 2, 0, 110, 0, 60, 106, 2, 0, 0, 0, 0, 0, 0, 0, 0,
          0, 0, 0, 0, 0, 0, 0, 1, 0, 0, 0, 6, 1, 3, 0, 59, 0, 1, 207, 21]"
  by (simp add: eval_frame)

text \<open>Three response frames: a TCP-shaped read response carrying the register value
  \<open>0x1234\<close>, an RTU-shaped one carrying the same value, and a TCP-shaped exception
  response (function code \<open>0x83\<close>, exception code 2).\<close>

lemma v5_response_tcp:
  "decodeV5Frame [0xA5, 25, 0, 0x10, 0x15, 1, 0, 0x6E, 0x00, 0x3C, 0x6A,
                  2, 1, 0, 0, 0, 0, 0, 0, 0, 0, 0, 0, 0, 0,
                  0, 1, 0, 0, 0, 5, 1, 3, 2, 0x12, 0x34, 0, 0x15]
     = Inr [0, 1, 0, 0, 0, 5, 1, 3, 2, 0x12, 0x34]"
  by (simp add: eval_frame)

lemma v5_response_rtu:
  "decodeV5Frame [0xA5, 21, 0, 0x10, 0x15, 2, 0, 0x6E, 0x00, 0x3C, 0x6A,
                  2, 1, 0, 0, 0, 0, 0, 0, 0, 0, 0, 0, 0, 0,
                  1, 3, 2, 0x12, 0x34, 0xB5, 0x33, 0, 0x15]
     = Inr [1, 3, 2, 0x12, 0x34, 0xB5, 0x33]"
  by (simp add: eval_frame)

lemma v5_response_tcp_exception:
  "decodeV5Frame [0xA5, 23, 0, 0x10, 0x15, 1, 0, 0x6E, 0x00, 0x3C, 0x6A,
                  2, 1, 0, 0, 0, 0, 0, 0, 0, 0, 0, 0, 0, 0,
                  0, 1, 0, 0, 0, 3, 1, 0x83, 2, 0, 0x15]
     = Inr [0, 1, 0, 0, 0, 3, 1, 0x83, 2]"
  by (simp add: eval_frame)

lemma parse_tcp_response:
  "looksLikeModbusTcp [0, 1, 0, 0, 0, 5, 1, 3, 2, 0x12, 0x34]
   \<and> parseRegistersAuto [0, 1, 0, 0, 0, 5, 1, 3, 2, 0x12, 0x34] 3 = Inr [4660]"
  by (simp add: eval_parse)

lemma parse_rtu_response:
  "\<not> looksLikeModbusTcp [1, 3, 2, 0x12, 0x34, 0xB5, 0x33]
   \<and> parseRegistersAuto [1, 3, 2, 0x12, 0x34, 0xB5, 0x33] 3 = Inr [4660]"
  by (simp add: eval_parse)

lemma parse_tcp_exception:
  "looksLikeModbusTcp [0, 1, 0, 0, 0, 3, 1, 0x83, 2]
   \<and> parseRegistersAuto [0, 1, 0, 0, 0, 3, 1, 0x83, 2] 3 = Inl (ModbusTcpException 2)"
  by (simp add: eval_parse)

lemma looksLikeModbusTcp_iff:
  "looksLikeModbusTcp adu
     = (9 \<le> length adu \<and> peekUInt16BE adu 2 = 0 \<and> 2 \<le> peekUInt16BE adu 4)"
  by (auto simp: looksLikeModbusTcp_def MODBUS_TCP_HEADER_LEN_def Let_def)

text \<open>
  Claim C7, as stated: an ADU is treated as Modbus TCP exactly when its protocol id is
  zero and its declared MBAP length is plausible for the bytes present.  It fails: the
  nine-byte ADU \<open>00 01 00 00 FF FF 01 03 02\<close> declares 65535 bytes after the length field
  and has three; \<open>looksLikeModbusTcp\<close> accepts it.
\<close>

theorem C7_declared_length_counterexample:
  "looksLikeModbusTcp [0x00, 0x01, 0x00, 0x00, 0xFF, 0xFF, 0x01, 0x03, 0x02]
     \<noteq> spec_tcpShaped [0x00, 0x01, 0x00, 0x00, 0xFF, 0xFF, 0x01, 0x03, 0x02]"
  by (simp add: looksLikeModbusTcp_def spec_tcpShaped_def spec_declaredLengthPlausible_def
      peekUInt16BE_def MODBUS_TCP_HEADER_LEN_def)

text \<open>
  Claim C7, amended: an ADU is treated as Modbus TCP exactly when it has at least nine
  bytes, its protocol id (bytes 2 and 3, big-endian) is zero and its declared MBAP length
  (bytes 4 and 5) is at least 2; the declared length is not compared with the bytes
  present.  \<open>parseRegistersAuto\<close> parses an ADU classified as TCP on the TCP path and
  every other ADU on the RTU path.
\<close>

theorem C7_shape_detection:
  "looksLikeModbusTcp adu
     = (9 \<le> length adu \<and> peekUInt16BE adu 2 = 0 \<and> 2 \<le> peekUInt16BE adu 4)
   \<and> parseRegistersAuto adu expected
     = (if 9 \<le> length adu \<and> peekUInt16BE adu 2 = 0 \<and> 2 \<le> peekUInt16BE adu 4
        then parseTcpPath adu expected else parseRtuPath adu expected)"
  by (simp add: parseRegistersAuto_def looksLikeModbusTcp_iff)

theorem C7_shape_detection_witness:
  "looksLikeModbusTcp [0x00, 0x01, 0x00, 0x00, 0xFF, 0xFF, 0x01, 0x03, 0x02]
   \<and> parseRegistersAuto [0x00, 0x01, 0x00, 0x00, 0xFF, 0xFF, 0x01, 0x03, 0x02] 3
       = parseTcpPath [0x00, 0x01, 0x00, 0x00, 0xFF, 0xFF, 0x01, 0x03, 0x02] 3
   \<and> \<not> looksLikeModbusTcp [0x01, 0x03, 0x02, 0x12, 0x34, 0xB5, 0x33]
   \<and> parseRegistersAuto [0x01, 0x03, 0x02, 0x12, 0x34, 0xB5, 0x33] 3
       = parseRtuPath [0x01, 0x03, 0x02, 0x12, 0x34, 0xB5, 0x33] 3"
  using C7_shape_detection [of "[0x00, 0x01, 0x00, 0x00, 0xFF, 0xFF, 0x01, 0x03, 0x02]" 3]
        C7_shape_detection [of "[0x01, 0x03, 0x02, 0x12, 0x34, 0xB5, 0x33]" 3]
  by (simp add: peekUInt16BE_def)

text \<open>One call of \<open>readRegisters\<close>, by the mode of the client and the first response.\<close>

lemma readRegisters_tcp_exchange:
  assumes "transport c = TCP"
    and "buildModbusTcpFrame ((txId c + 1) mod 65536) (slaveId c) f r n = Inr req"
    and "encodeV5Frame req (loggerSerial c) ((sequence c + 1) mod 65536) = Inr v5Req"
    and "net v5Req = Inr v5Resp"
    and "decodeV5Frame v5Resp = Inr adu"
  shows "readRegisters net c f r n
           = (parseRegistersAuto adu f, nextSequence (nextTxId c), [v5Req])"
  using assms
  by (subst readRegisters.simps)
     (simp add: buildModbusRequest_def nextTxId_def nextSequence_def Let_def
        split: sum.splits)

lemma readRegisters_tcp_once:
  assumes "transport c = TCP"
  shows "case readRegisters net c f r n of
           (res, c', sent) \<Rightarrow> transport c' = TCP \<and> length sent \<le> 1"
  using assms
  by (subst readRegisters.simps)
     (simp add: buildModbusRequest_def nextTxId_def nextSequence_def Let_def
        split: sum.splits prod.splits)

lemma readRegisters_rtu_parsed:
  assumes "transport c = RTU"
    and "buildModbusRtuFrame (slaveId c) f r n = Inr req"
    and "encodeV5Frame req (loggerSerial c) ((sequence c + 1) mod 65536) = Inr v5Req"
    and "net v5Req = Inr v5Resp"
    and "decodeV5Frame v5Resp = Inr adu"
    and "looksLikeModbusTcp adu"
    and "parseRegistersAuto adu f = Inr vals"
  shows "readRegisters net c f r n
           = (Inr vals, (nextSequence c)\<lparr>transport := TCP\<rparr>, [v5Req])"
  using assms
  by (subst readRegisters.simps)
     (simp add: buildModbusRequest_def nextTxId_def nextSequence_def Let_def)

lemma readRegisters_rtu_retry:
  assumes "transport c = RTU"
    and "buildModbusRtuFrame (slaveId c) f r n = Inr req"
    and "encodeV5Frame req (loggerSerial c) ((sequence c + 1) mod 65536) = Inr v5Req"
    and "net v5Req = Inr v5Resp"
    and "decodeV5Frame v5Resp = Inr adu"
    and "looksLikeModbusTcp adu"
    and "parseRegistersAuto adu f = Inl e"
  shows "readRegisters net c f r n =
          (case readRegisters net ((nextSequence c)\<lparr>transport := TCP\<rparr>) f r n of
             (res, c', sent) \<Rightarrow> (res, c', v5Req # sent))"
  using assms
  by (subst readRegisters.simps)
     (simp add: buildModbusRequest_def nextTxId_def nextSequence_def Let_def)

lemma writeUInt16BE_Inr_iff: "(\<exists>b. writeUInt16BE v = Inr b) \<longleftrightarrow> 0 \<le> v \<and> v \<le> 65535"
  by (auto simp: writeUInt16BE_def)

lemma buildModbusRtuFrame_in_range:
  assumes "buildModbusRtuFrame u f r n = Inr req"
  shows "0 \<le> r \<and> r \<le> 65535 \<and> 0 \<le> n \<and> n \<le> 65535"
proof -
  from assms obtain br bn where "writeUInt16BE r = Inr br" and "writeUInt16BE n = Inr bn"
    unfolding buildModbusRtuFrame_def bindE_eq_Inr by blast
  then show ?thesis using writeUInt16BE_Inr_iff by blast
qed

lemma buildModbusTcpFrame_succeeds:
  assumes "0 \<le> r \<and> r \<le> 65535" and "0 \<le> n \<and> n \<le> 65535"
  shows "\<exists>req. buildModbusTcpFrame t u f r n = Inr req \<and> length req = 12"
proof -
  have t: "0 \<le> t mod 65536" "t mod 65536 \<le> 65535" by simp_all
  then have "\<not> (t mod 65536 < 0 \<or> 65535 < t mod 65536)" by linarith
  with assms show ?thesis
    by (simp add: buildModbusTcpFrame_def writeUInt16BE_def bindE_Inr)
qed

lemma readRegisters_tcp_sends_one:
  assumes "transport c = TCP" and "0 \<le> r \<and> r \<le> 65535" and "0 \<le> n \<and> n \<le> 65535"
  shows "length (snd (snd (readRegisters net c f r n))) = 1"
proof -
  from buildModbusTcpFrame_succeeds [OF assms(2,3)] obtain req
    where req: "buildModbusTcpFrame ((txId c + 1) mod 65536) (slaveId c) f r n = Inr req"
      and len: "length req = 12" by blast
  have "0 \<le> (sequence c + 1) mod 65536" and "(sequence c + 1) mod 65536 \<le> 65535"
    by simp_all
  with len encodeV5Frame_succeeds [of req "(sequence c + 1) mod 65536" "loggerSerial c"]
  obtain v5Req
    where v5: "encodeV5Frame req (loggerSerial c) ((sequence c + 1) mod 65536) = Inr v5Req"
    by auto
  from assms(1) req v5 show ?thesis
    by (subst readRegisters.simps)
       (simp add: buildModbusRequest_def nextTxId_def nextSequence_def Let_def
          split: sum.splits)
qed

text \<open>
  Claim C2, as stated: in RTU mode a TCP-shaped response makes the client send the same
  read once more, and after the switch a second disagreement of shape is an error.  Both
  parts fail.  (1) A client in RTU mode reads register 59 and receives a TCP-shaped
  response that parses: the values are returned, the mode is TCP, and one request frame
  was sent, not two.  (2) A client in TCP mode receives an RTU-shaped response that
  parses: the values are returned and no error surfaces.
\<close>

theorem C2_retry_counterexample:
  "readRegisters
     (\<lambda>req. Inr [0xA5, 25, 0, 0x10, 0x15, 1, 0, 0x6E, 0x00, 0x3C, 0x6A,
                 2, 1, 0, 0, 0, 0, 0, 0, 0, 0, 0, 0, 0, 0,
                 0, 1, 0, 0, 0, 5, 1, 3, 2, 0x12, 0x34, 0, 0x15])
     \<lparr>loggerSerial = 1782317166, slaveId = 1, sequence = 0, txId = 0, transport = RTU\<rparr>
     3 59 1
   = (Inr [4660],
      \<lparr>loggerSerial = 1782317166, slaveId = 1, sequence = 1, txId = 0, transport = TCP\<rparr>,
      [ [165, 23, 0, 16, 69, 1, 0, 110, 0, 60, 106, 2, 0, 0, 0, 0, 0, 0, 0, 0,
        0, 0, 0, 0, 0, 0, 1, 3, 0, 59, 0, 1, 245, 199, 127, 21] ])
   \<and> readRegisters
     (\<lambda>req. Inr [0xA5, 21, 0, 0x10, 0x15, 2, 0, 0x6E, 0x00, 0x3C, 0x6A,
                 2, 1, 0, 0, 0, 0, 0, 0, 0, 0, 0, 0, 0, 0,
                 1, 3, 2, 0x12, 0x34, 0xB5, 0x33, 0, 0x15])
     \<lparr>loggerSerial = 1782317166, slaveId = 1, sequence = 1, txId = 0, transport = TCP\<rparr>
     3 59 1
   = (Inr [4660],
      \<lparr>loggerSerial = 1782317166, slaveId = 1, sequence = 2, txId = 1, transport = TCP\<rparr>,
      [ [165, 27, 0, 16, 69, 2, 0, 110, 0, 60, 106, 2, 0, 0, 0, 0, 0, 0, 0, 0,
        0, 0, 0, 0, 0, 0, 0, 1, 0, 0, 0, 6, 1, 3, 0, 59, 0, 1, 207, 21] ])"
proof
  show "readRegisters
     (\<lambda>req. Inr [0xA5, 25, 0, 0x10, 0x15, 1, 0, 0x6E, 0x00, 0x3C, 0x6A,
                 2, 1, 0, 0, 0, 0, 0, 0, 0, 0, 0, 0, 0, 0,
                 0, 1, 0, 0, 0, 5, 1, 3, 2, 0x12, 0x34, 0, 0x15])
     \<lparr>loggerSerial = 1782317166, slaveId = 1, sequence = 0, txId = 0, transport = RTU\<rparr>
     3 59 1
   = (Inr [4660],
      \<lparr>loggerSerial = 1782317166, slaveId = 1, sequence = 1, txId = 0, transport = TCP\<rparr>,
      [ [165, 23, 0, 16, 69, 1, 0, 110, 0, 60, 106, 2, 0, 0, 0, 0, 0, 0, 0, 0,
        0, 0, 0, 0, 0, 0, 1, 3, 0, 59, 0, 1, 245, 199, 127, 21] ])"
    by (subst readRegisters_rtu_parsed
          [where req = "[0x01, 0x03, 0x00, 0x3B, 0x00, 0x01, 0xF5, 0xC7]"
             and adu = "[0, 1, 0, 0, 0, 5, 1, 3, 2, 0x12, 0x34]" and vals = "[4660]"
             and v5Resp = "[0xA5, 25, 0, 0x10, 0x15, 1, 0, 0x6E, 0x00, 0x3C, 0x6A,
                 2, 1, 0, 0, 0, 0, 0, 0, 0, 0, 0, 0, 0, 0,
                 0, 1, 0, 0, 0, 5, 1, 3, 2, 0x12, 0x34, 0, 0x15]"])
       (simp_all add: rtu_request_3B v5_request_rtu_3B v5_response_tcp parse_tcp_response
          nextSequence_def)
next
  show "readRegisters
     (\<lambda>req. Inr [0xA5, 21, 0, 0x10, 0x15, 2, 0, 0x6E, 0x00, 0x3C, 0x6A,
                 2, 1, 0, 0, 0, 0, 0, 0, 0, 0, 0, 0, 0, 0,
                 1, 3, 2, 0x12, 0x34, 0xB5, 0x33, 0, 0x15])
     \<lparr>loggerSerial = 1782317166, slaveId = 1, sequence = 1, txId = 0, transport = TCP\<rparr>
     3 59 1
   = (Inr [4660],
      \<lparr>loggerSerial = 1782317166, slaveId = 1, sequence = 2, txId = 1, transport = TCP\<rparr>,
      [ [165, 27, 0, 16, 69, 2, 0, 110, 0, 60, 106, 2, 0, 0, 0, 0, 0, 0, 0, 0,
        0, 0, 0, 0, 0, 0, 0, 1, 0, 0, 0, 6, 1, 3, 0, 59, 0, 1, 207, 21] ])"
    by (subst readRegisters_tcp_exchange
          [where req = "[0x00, 0x01, 0x00, 0x00, 0x00, 0x06, 0x01, 0x03, 0x00, 0x3B, 0x00, 0x01]"
             and adu = "[1, 3, 2, 0x12, 0x34, 0xB5, 0x33]"
             and v5Resp = "[0xA5, 21, 0, 0x10, 0x15, 2, 0, 0x6E, 0x00, 0x3C, 0x6A,
                 2, 1, 0, 0, 0, 0, 0, 0, 0, 0, 0, 0, 0, 0,
                 1, 3, 2, 0x12, 0x34, 0xB5, 0x33, 0, 0x15]"])
       (simp_all add: tcp_request_3B v5_request_tcp_3B v5_response_rtu parse_rtu_response
          nextSequence_def nextTxId_def)
qed

text \<open>
  Claim C2, amended.  Let a client in RTU mode send a read and receive a response whose
  ADU is TCP-shaped.  If the ADU parses, the values are returned, the mode is TCP from
  then on, and no request is sent again.  If parsing fails, the mode is set to TCP and the
  same read (same function code, register and count) is sent once more, now as a Modbus
  TCP request with the next sequence number; what that second exchange yields is the
  result, and exactly two requests have been sent.  A client in TCP mode stays in TCP mode and
  sends at most one request per read: whatever the shape of the response, the result is
  what \<open>parseRegistersAuto\<close> makes of it, values or error, with no retry.
\<close>

theorem C2_transport_autodetect:
  assumes "transport c = RTU"
    and "buildModbusRtuFrame (slaveId c) f r n = Inr req"
    and "encodeV5Frame req (loggerSerial c) ((sequence c + 1) mod 65536) = Inr v5Req"
    and "net v5Req = Inr v5Resp"
    and "decodeV5Frame v5Resp = Inr adu"
    and "looksLikeModbusTcp adu"
  shows
    "(\<forall>vals. parseRegistersAuto adu f = Inr vals \<longrightarrow>
        readRegisters net c f r n
          = (Inr vals, (nextSequence c)\<lparr>transport := TCP\<rparr>, [v5Req]))
     \<and> (\<forall>e. parseRegistersAuto adu f = Inl e \<longrightarrow>
        readRegisters net c f r n
          = (case readRegisters net ((nextSequence c)\<lparr>transport := TCP\<rparr>) f r n of
               (res, c', sent) \<Rightarrow> (res, c', v5Req # sent))
        \<and> transport (fst (snd (readRegisters net c f r n))) = TCP
        \<and> length (snd (snd (readRegisters net c f r n))) = 2)
     \<and> (\<forall>c' f' r' n'. transport c' = TCP \<longrightarrow>
        transport (fst (snd (readRegisters net c' f' r' n'))) = TCP
        \<and> length (snd (snd (readRegisters net c' f' r' n'))) \<le> 1
        \<and> (\<forall>req' v5Req' v5Resp' adu'.
              buildModbusTcpFrame ((txId c' + 1) mod 65536) (slaveId c') f' r' n' = Inr req'
              \<and> encodeV5Frame req' (loggerSerial c') ((sequence c' + 1) mod 65536) = Inr v5Req'
              \<and> net v5Req' = Inr v5Resp' \<and> decodeV5Frame v5Resp' = Inr adu' \<longrightarrow>
              readRegisters net c' f' r' n'
                = (parseRegistersAuto adu' f', nextSequence (nextTxId c'), [v5Req'])))"
proof (intro conjI allI impI)
  fix vals assume "parseRegistersAuto adu f = Inr vals"
  with assms show "readRegisters net c f r n
          = (Inr vals, (nextSequence c)\<lparr>transport := TCP\<rparr>, [v5Req])"
    by (rule readRegisters_rtu_parsed)
next
  fix e assume e: "parseRegistersAuto adu f = Inl e"
  from assms e show retry: "readRegisters net c f r n
          = (case readRegisters net ((nextSequence c)\<lparr>transport := TCP\<rparr>) f r n of
               (res, c', sent) \<Rightarrow> (res, c', v5Req # sent))"
    by (rule readRegisters_rtu_retry)
  have tcp: "transport ((nextSequence c)\<lparr>transport := TCP\<rparr>) = TCP" by simp
  from readRegisters_tcp_once [OF tcp, of net f r n]
  show "transport (fst (snd (readRegisters net c f r n))) = TCP"
    unfolding retry by (simp split: prod.splits)
  from buildModbusRtuFrame_in_range [OF assms(2)]
  have "length (snd (snd (readRegisters net ((nextSequence c)\<lparr>transport := TCP\<rparr>) f r n))) = 1"
    by (intro readRegisters_tcp_sends_one tcp) simp_all
  then show "length (snd (snd (readRegisters net c f r n))) = 2"
    unfolding retry by (auto split: prod.splits)
next
  fix c' :: client and f' r' n' assume tcp: "transport c' = TCP"
  from readRegisters_tcp_once [OF tcp, of net f' r' n']
  show "transport (fst (snd (readRegisters net c' f' r' n'))) = TCP"
    by (simp split: prod.splits)
  from readRegisters_tcp_once [OF tcp, of net f' r' n']
  show "length (snd (snd (readRegisters net c' f' r' n'))) \<le> 1"
    by (simp split: prod.splits)
  fix req' v5Req' v5Resp' adu'
  assume "buildModbusTcpFrame ((txId c' + 1) mod 65536) (slaveId c') f' r' n' = Inr req'
              \<and> encodeV5Frame req' (loggerSerial c') ((sequence c' + 1) mod 65536) = Inr v5Req'
              \<and> net v5Req' = Inr v5Resp' \<and> decodeV5Frame v5Resp' = Inr adu'"
  with tcp show "readRegisters net c' f' r' n'
                = (parseRegistersAuto adu' f', nextSequence (nextTxId c'), [v5Req'])"
    using readRegisters_tcp_exchange by blast
qed

theorem C2_transport_autodetect_witness:
  "transport \<lparr>loggerSerial = 1782317166, slaveId = 1, sequence = 0, txId = 0, transport = RTU\<rparr> = RTU
   \<and> buildModbusRtuFrame 1 3 59 1 = Inr [0x01, 0x03, 0x00, 0x3B, 0x00, 0x01, 0xF5, 0xC7]
   \<and> encodeV5Frame [0x01, 0x03, 0x00, 0x3B, 0x00, 0x01, 0xF5, 0xC7] 1782317166 1 =
       Inr [165, 23, 0, 16, 69, 1, 0, 110, 0, 60, 106, 2, 0, 0, 0, 0, 0, 0, 0, 0,
            0, 0, 0, 0, 0, 0, 1, 3, 0, 59, 0, 1, 245, 199, 127, 21]
   \<and> decodeV5Frame [0xA5, 23, 0, 0x10, 0x15, 1, 0, 0x6E, 0x00, 0x3C, 0x6A,
                  2, 1, 0, 0, 0, 0, 0, 0, 0, 0, 0, 0, 0, 0,
                  0, 1, 0, 0, 0, 3, 1, 0x83, 2, 0, 0x15]
       = Inr [0, 1, 0, 0, 0, 3, 1, 0x83, 2]
   \<and> looksLikeModbusTcp [0, 1, 0, 0, 0, 3, 1, 0x83, 2]
   \<and> parseRegistersAuto [0, 1, 0, 0, 0, 3, 1, 0x83, 2] 3 = Inl (ModbusTcpException 2)
   \<and> readRegisters
        (\<lambda>req. Inr [0xA5, 23, 0, 0x10, 0x15, 1, 0, 0x6E, 0x00, 0x3C, 0x6A,
                    2, 1, 0, 0, 0, 0, 0, 0, 0, 0, 0, 0, 0, 0,
                    0, 1, 0, 0, 0, 3, 1, 0x83, 2, 0, 0x15])
        \<lparr>loggerSerial = 1782317166, slaveId = 1, sequence = 0, txId = 0, transport = RTU\<rparr>
        3 59 1
     = (Inl (ModbusTcpException 2),
        \<lparr>loggerSerial = 1782317166, slaveId = 1, sequence = 2, txId = 1, transport = TCP\<rparr>,
        [ [165, 23, 0, 16, 69, 1, 0, 110, 0, 60, 106, 2, 0, 0, 0, 0, 0, 0, 0, 0,
          0, 0, 0, 0, 0, 0, 1, 3, 0, 59, 0, 1, 245, 199, 127, 21],
         [165, 27, 0, 16, 69, 2, 0, 110, 0, 60, 106, 2, 0, 0, 0, 0, 0, 0, 0, 0,
          0, 0, 0, 0, 0, 0, 0, 1, 0, 0, 0, 6, 1, 3, 0, 59, 0, 1, 207, 21] ])"
proof -
  let ?c = "\<lparr>loggerSerial = 1782317166, slaveId = 1, sequence = 0, txId = 0, transport = RTU\<rparr>"
  let ?c1 = "\<lparr>loggerSerial = 1782317166, slaveId = 1, sequence = 1, txId = 0, transport = TCP\<rparr>"
  let ?resp = "[0xA5, 23, 0, 0x10, 0x15, 1, 0, 0x6E, 0x00, 0x3C, 0x6A,
                2, 1, 0, 0, 0, 0, 0, 0, 0, 0, 0, 0, 0, 0,
                0, 1, 0, 0, 0, 3, 1, 0x83, 2, 0, 0x15 :: byte]"
  let ?net = "\<lambda>req :: buffer. (Inr ?resp :: error + buffer)"
  let ?adu = "[0, 1, 0, 0, 0, 3, 1, 0x83, 2 :: byte]"
  let ?v1 = "[165, 23, 0, 16, 69, 1, 0, 110, 0, 60, 106, 2, 0, 0, 0, 0, 0, 0, 0, 0,
          0, 0, 0, 0, 0, 0, 1, 3, 0, 59, 0, 1, 245, 199, 127, 21 :: byte]"
  let ?v2 = "[165, 27, 0, 16, 69, 2, 0, 110, 0, 60, 106, 2, 0, 0, 0, 0, 0, 0, 0, 0,
          0, 0, 0, 0, 0, 0, 0, 1, 0, 0, 0, 6, 1, 3, 0, 59, 0, 1, 207, 21 :: byte]"
  have h1: "transport ?c = RTU" by simp
  have h2: "buildModbusRtuFrame (slaveId ?c) 3 59 1 = Inr [0x01, 0x03, 0x00, 0x3B, 0x00, 0x01, 0xF5, 0xC7]"
    by (simp add: rtu_request_3B)
  have h3: "encodeV5Frame [0x01, 0x03, 0x00, 0x3B, 0x00, 0x01, 0xF5, 0xC7] (loggerSerial ?c)
              ((sequence ?c + 1) mod 65536) = Inr ?v1"
    by (simp add: v5_request_rtu_3B)
  have h4: "?net ?v1 = Inr ?resp" by simp
  have h5: "decodeV5Frame ?resp = Inr ?adu" by (rule v5_response_tcp_exception)
  have h6: "looksLikeModbusTcp ?adu" using parse_tcp_exception by simp
  have h7: "parseRegistersAuto ?adu 3 = Inl (ModbusTcpException 2)"
    using parse_tcp_exception by simp
  have c1: "(nextSequence ?c)\<lparr>transport := TCP\<rparr> = ?c1" by (simp add: nextSequence_def)
  note main = C2_transport_autodetect [OF h1 h2 h3 h4 h5 h6]
  from main h7 have retry: "readRegisters ?net ?c 3 59 1
          = (case readRegisters ?net ?c1 3 59 1 of (res, c', sent) \<Rightarrow> (res, c', ?v1 # sent))"
    unfolding c1 by blast
  have t2: "buildModbusTcpFrame ((txId ?c1 + 1) mod 65536) (slaveId ?c1) 3 59 1
              = Inr [0x00, 0x01, 0x00, 0x00, 0x00, 0x06, 0x01, 0x03, 0x00, 0x3B, 0x00, 0x01]"
    by (simp add: tcp_request_3B)
  have t3: "encodeV5Frame [0x00, 0x01, 0x00, 0x00, 0x00, 0x06, 0x01, 0x03, 0x00, 0x3B, 0x00, 0x01]
              (loggerSerial ?c1) ((sequence ?c1 + 1) mod 65536) = Inr ?v2"
    by (simp add: v5_request_tcp_3B)
  have t4: "?net ?v2 = Inr ?resp" by simp
  have "transport ?c1 = TCP" by simp
  with main t2 t3 t4 h5 have "readRegisters ?net ?c1 3 59 1
      = (parseRegistersAuto ?adu 3, nextSequence (nextTxId ?c1), [?v2])"
    by blast
  with retry h7 have "readRegisters ?net ?c 3 59 1
      = (Inl (ModbusTcpException 2), nextSequence (nextTxId ?c1), [?v1, ?v2])"
    by simp
  then show ?thesis
    using rtu_request_3B v5_request_rtu_3B h5 h6 h7
    by (simp add: nextSequence_def nextTxId_def)
qed

section \<open>Properties of the polling scheduler\<close>


lemma applyZeros_fold_fields:
  "lastPowerW (foldl (\<lambda>d' c. setCapabilityValue d' c v) d cs) = lastPowerW d"
  "availability (foldl (\<lambda>d' c. setCapabilityValue d' c v) d cs) = availability d"
  "backoffUntil (foldl (\<lambda>d' c. setCapabilityValue d' c v) d cs) = backoffUntil d"
  "polling (foldl (\<lambda>d' c. setCapabilityValue d' c v) d cs) = polling d"
  "journal (foldl (\<lambda>d' c. setCapabilityValue d' c v) d cs) = journal d"
  "definitions (foldl (\<lambda>d' c. setCapabilityValue d' c v) d cs) = definitions d"
  "capabilities (foldl (\<lambda>d' c. setCapabilityValue d' c v) d cs) = capabilities d"
  by (induction cs arbitrary: d; simp add: setCapabilityValue_def)+


lemma applyZeros_fields:
  "lastPowerW (applyZeros d) = Finite 0"
  "availability (applyZeros d) = availability d"
  "backoffUntil (applyZeros d) = backoffUntil d"
  "polling (applyZeros d) = polling d"
  "journal (applyZeros d) = journal d"
  "definitions (applyZeros d) = definitions d"
  "capabilities (applyZeros d) = capabilities d"
  by (simp_all add: applyZeros_def applyZeros_fold_fields)


















lemma applyValue_fields:
  "capabilities (applyValue vals d def) = capabilities d"
  "definitions (applyValue vals d def) = definitions d"
  "availability (applyValue vals d def) = availability d"
  "backoffUntil (applyValue vals d def) = backoffUntil d"
  by (simp_all add: applyValue_def setCapabilityValue_def Let_def split: option.splits)

lemma applyValue_fold_fields:
  "capabilities (foldl (applyValue vals) d defs) = capabilities d"
  "definitions (foldl (applyValue vals) d defs) = definitions d"
  "availability (foldl (applyValue vals) d defs) = availability d"
  "backoffUntil (foldl (applyValue vals) d defs) = backoffUntil d"
  by (induction defs arbitrary: d; simp add: applyValue_fields)+

lemma applyValue_keeps_power:
  assumes "\<not> (''measure_power'' \<in> set (capabilities d)
              \<and> homeyCapability def = Some ''measure_power'' \<and> vals (name def) \<noteq> None)"
  shows "lastPowerW (applyValue vals d def) = lastPowerW d"
  using assms
  by (auto simp: applyValue_def setCapabilityValue_def Let_def split: option.splits)

lemma applyValue_fold_keeps_power:
  assumes "\<not> (''measure_power'' \<in> set (capabilities d)
              \<and> list_ex (\<lambda>def. homeyCapability def = Some ''measure_power''
                                \<and> vals (name def) \<noteq> None) defs)"
  shows "lastPowerW (foldl (applyValue vals) d defs) = lastPowerW d"
  using assms
proof (induction defs arbitrary: d)
  case Nil
  then show ?case by simp
next
  case (Cons def defs)
  have "lastPowerW (foldl (applyValue vals) (applyValue vals d def) defs)
          = lastPowerW (applyValue vals d def)"
    using Cons.prems by (intro Cons.IH) (auto simp: applyValue_fields)
  also have "\<dots> = lastPowerW d"
    using Cons.prems by (intro applyValue_keeps_power) auto
  finally show ?case by simp
qed

lemma pollSucceeded_keeps_power:
  "\<not> updatesPower d vals \<Longrightarrow> lastPowerW (pollSucceeded d vals) = lastPowerW d"
  using applyValue_fold_keeps_power [of "d\<lparr>availability := Available\<rparr>" vals "definitions d"]
  by (simp add: pollSucceeded_def updatesPower_def)

lemma pollSucceeded_fields:
  "capabilities (pollSucceeded d vals) = capabilities d"
  "definitions (pollSucceeded d vals) = definitions d"
  "availability (pollSucceeded d vals) = Available"
  by (simp_all add: pollSucceeded_def applyValue_fold_fields)

lemma pollFailed_fields:
  "capabilities (pollFailed d err isNight now) = capabilities d"
  "definitions (pollFailed d err isNight now) = definitions d"
  by (simp_all add: pollFailed_def applyZeros_fields)

lemma pollTick_fields:
  "capabilities (fst (pollTick d now)) = capabilities d"
  "definitions (fst (pollTick d now)) = definitions d"
  "lastPowerW (fst (pollTick d now)) = lastPowerW d"
  "availability (fst (pollTick d now)) = availability d"
  by (simp_all add: pollTick_def)

lemma updatesPower_cong:
  "capabilities d' = capabilities d \<Longrightarrow> definitions d' = definitions d \<Longrightarrow>
     updatesPower d' vals = updatesPower d vals"
  by (simp add: updatesPower_def)

lemma idle_power: "\<not> jsGt (Finite 0) POWER_THRESHOLD_W"
  by (simp add: jsGt_def POWER_THRESHOLD_W_def)

lemma pollFailed_asleep_fields:
  "lastPowerW d = Finite 0 \<Longrightarrow> availability d = Available \<Longrightarrow>
     lastPowerW (pollFailed d err isNight now) = Finite 0
     \<and> availability (pollFailed d err isNight now) = Available"
  by (simp add: pollFailed_def applyZeros_fields idle_power)

lemma schedule_asleep:
  assumes "asleep d s" and "keepsPower d e"
  shows "asleep d (schedule s e)"
proof (cases s)
  case (Pair d' n)
  with assms(1) have a: "lastPowerW d' = Finite 0" "availability d' = Available"
    "capabilities d' = capabilities d" "definitions d' = definitions d"
    by (simp_all add: asleep_def)
  show ?thesis
  proof (cases e)
    case (Tick now)
    with Pair a show ?thesis
      using pollTick_fields [of d' now]
      by (auto simp: asleep_def split: prod.splits)
  next
    case (Succeeded vals)
    with assms(2) have "\<not> updatesPower d' vals"
      using updatesPower_cong [OF a(3,4)] by simp
    with Pair a Succeeded show ?thesis
      by (simp add: asleep_def pollSucceeded_keeps_power pollSucceeded_fields)
  next
    case (Failed err isNight now)
    with Pair a show ?thesis
      using pollFailed_asleep_fields [OF a(1,2), of err isNight now]
      by (simp add: asleep_def pollFailed_fields)
  next
    case Reinit
    with Pair a show ?thesis
      by (simp add: asleep_def onInit_def)
  qed
qed

lemma run_asleep:
  "asleep d s \<Longrightarrow> list_all (keepsPower d) events \<Longrightarrow> asleep d (foldl schedule s events)"
  by (induction events arbitrary: s) (simp_all add: schedule_asleep)

lemma night_failure_asleep: "asleep d (pollFailed d err True now, n)"
  by (simp add: asleep_def pollFailed_def applyZeros_fields)

text \<open>
  Claim C10.  The claim says that every failure after a night failure takes the idle
  branch.  The \<open>catch\<close> block tests \<open>isNight\<close> first: a second failure outside the solar
  window takes the night branch again, with a new backoff and the night line in the
  journal, and its result is not that of the idle branch.
\<close>

theorem C10_second_night_failure_counterexample:
  "backoffUntil
     (pollFailed
        (pollFailed
           \<lparr>deviceName = ''Deye'', definitions = [], capabilities = [''measure_power'', ''meter_power''],
           capabilityValues = [''measure_power'' \<mapsto> CNum (Finite 1200),
           ''meter_power'' \<mapsto> CNum (Finite 55)],
           availability = Available, lastPowerW = Finite 1200, backoffUntil = 0,
           polling = True, journal = []\<rparr>
           ''timeout'' True 1000)
        ''timeout'' True 1816000) = 3616000
   \<and> backoffUntil
       ((pollFailed
           \<lparr>deviceName = ''Deye'', definitions = [], capabilities = [''measure_power'', ''meter_power''],
           capabilityValues = [''measure_power'' \<mapsto> CNum (Finite 1200),
           ''meter_power'' \<mapsto> CNum (Finite 55)],
           availability = Available, lastPowerW = Finite 1200, backoffUntil = 0,
           polling = True, journal = []\<rparr>
           ''timeout'' True 1000)
        \<lparr>journal := journal
            (pollFailed
               \<lparr>deviceName = ''Deye'', definitions = [], capabilities = [''measure_power'', ''meter_power''],
               capabilityValues = [''measure_power'' \<mapsto> CNum (Finite 1200),
               ''meter_power'' \<mapsto> CNum (Finite 55)],
               availability = Available, lastPowerW = Finite 1200, backoffUntil = 0,
               polling = True, journal = []\<rparr>
               ''timeout'' True 1000) @ [Log ''Poll failed (inverter idle):'' ''timeout''],
          polling := False\<rparr>) = 1801000
   \<and> journal
       (pollFailed
          (pollFailed
             \<lparr>deviceName = ''Deye'', definitions = [], capabilities = [''measure_power'', ''meter_power''],
             capabilityValues = [''measure_power'' \<mapsto> CNum (Finite 1200),
             ''meter_power'' \<mapsto> CNum (Finite 55)],
             availability = Available, lastPowerW = Finite 1200, backoffUntil = 0,
             polling = True, journal = []\<rparr>
             ''timeout'' True 1000)
          ''timeout'' True 1816000)
     = [Log ''poll: night timeout (expected), backing off 30 min:'' ''timeout'',
        Log ''poll: night timeout (expected), backing off 30 min:'' ''timeout'']"
  by code_simp

text \<open>
  Claim C10, amended.  The night branch sets the last known power to 0.  From then on,
  through any sequence of ticks, initialisations, failures and successful cycles that do
  not write the power reading, the last known power stays 0 and the device stays
  available: a failure inside the solar window takes the idle branch, whatever the power
  was before the night failure, a failure outside the window takes the night branch
  again, and no failure marks the device unavailable.
\<close>

theorem C10_night_failure_resets_power:
  assumes "list_all (keepsPower d) events"
  shows "lastPowerW (pollFailed d err True now) = Finite 0
     \<and> (let d' = fst (foldl schedule (pollFailed d err True now, n) events) in
          lastPowerW d' = Finite 0
          \<and> availability d' = Available
          \<and> (\<forall>err' now'. pollFailed d' err' False now'
                = d'\<lparr>journal := journal d' @ [Log ''Poll failed (inverter idle):'' err'],
                      polling := False\<rparr>)
          \<and> (\<forall>err' now'.
                lastPowerW (pollFailed d' err' True now') = Finite 0
                \<and> backoffUntil (pollFailed d' err' True now') = now' + 30 * 60 * 1000)
          \<and> (\<forall>err' isNight' now'.
                availability (pollFailed d' err' isNight' now') = Available))"
proof -
  let ?s = "foldl schedule (pollFailed d err True now, n) events"
  from run_asleep [OF night_failure_asleep assms, of err now n]
  have p: "lastPowerW (fst ?s) = Finite 0" and a: "availability (fst ?s) = Available"
    by (simp_all add: asleep_def)
  have "lastPowerW (pollFailed d err True now) = Finite 0"
    by (simp add: pollFailed_def applyZeros_fields)
  moreover have "\<forall>err' now'. pollFailed (fst ?s) err' False now'
                = (fst ?s)\<lparr>journal := journal (fst ?s) @ [Log ''Poll failed (inverter idle):'' err'],
                      polling := False\<rparr>"
    using p by (simp add: pollFailed_def idle_power)
  moreover have "\<forall>err' now'.
                lastPowerW (pollFailed (fst ?s) err' True now') = Finite 0
                \<and> backoffUntil (pollFailed (fst ?s) err' True now') = now' + 30 * 60 * 1000"
    by (simp add: pollFailed_def applyZeros_fields NIGHT_BACKOFF_MS_def)
  moreover have "\<forall>err' isNight' now'.
                availability (pollFailed (fst ?s) err' isNight' now') = Available"
    using pollFailed_asleep_fields [OF p a] by simp
  ultimately show ?thesis
    using p a by (simp add: Let_def)
qed

theorem C10_night_failure_resets_power_witness:
  "list_all
     (keepsPower \<lparr>deviceName = ''Deye'', definitions = [], capabilities = [''measure_power'', ''meter_power''],
                 capabilityValues = [''measure_power'' \<mapsto> CNum (Finite 1200),
                 ''meter_power'' \<mapsto> CNum (Finite 55)],
                 availability = Available, lastPowerW = Finite 1200, backoffUntil = 0,
                 polling = True, journal = []\<rparr>)
     [Tick 2000000, Failed ''timeout'' False 2015000, Reinit, Tick 2060000, Succeeded Map.empty]
   \<and> availability
        (pollFailed
           (fst (foldl schedule
                   (pollFailed
                      \<lparr>deviceName = ''Deye'', definitions = [], capabilities = [''measure_power'', ''meter_power''],
                      capabilityValues = [''measure_power'' \<mapsto> CNum (Finite 1200),
                      ''meter_power'' \<mapsto> CNum (Finite 55)],
                      availability = Available, lastPowerW = Finite 1200, backoffUntil = 0,
                      polling = True, journal = []\<rparr>
                      ''timeout'' True 1000, 0)
                   [Tick 2000000, Failed ''timeout'' False 2015000, Reinit, Tick 2060000,
                    Succeeded Map.empty]))
           ''timeout'' False 2135000)
       = Available"
proof -
  let ?d = "\<lparr>deviceName = ''Deye'', definitions = [], capabilities = [''measure_power'', ''meter_power''],
            capabilityValues = [''measure_power'' \<mapsto> CNum (Finite 1200),
            ''meter_power'' \<mapsto> CNum (Finite 55)],
            availability = Available, lastPowerW = Finite 1200, backoffUntil = 0,
            polling = True, journal = []\<rparr>"
  let ?es = "[Tick 2000000, Failed ''timeout'' False 2015000, Reinit, Tick 2060000,
              Succeeded Map.empty]"
  have h: "list_all (keepsPower ?d) ?es" by (simp add: updatesPower_def)
  from C10_night_failure_resets_power [OF h, of "''timeout''" 1000 0]
  have "\<forall>err' isNight' now'.
          availability (pollFailed (fst (foldl schedule (pollFailed ?d ''timeout'' True 1000, 0) ?es))
                          err' isNight' now') = Available"
    by (simp only: Let_def) blast
  then have e: "availability
        (pollFailed (fst (foldl schedule (pollFailed ?d ''timeout'' True 1000, 0) ?es))
           ''timeout'' False 2135000) = Available"
    by blast
  show ?thesis by (intro conjI) fact+
qed

section \<open>Properties of the arithmetic of doubles\<close>

text \<open>Every integer of magnitude below \<open>2^53\<close> is a double, so rounding leaves it as it
  is.\<close>

lemma bitlen_one: "bitlen 1 = 1"
  by (simp add: bitlen_alt_def)

lemma floorLog2_of_int:
  assumes "0 < k"
  shows "floorLog2 (of_int k) = bitlen k - 1"
proof -
  from assms have b1: "1 \<le> bitlen k" by (simp add: bitlen_alt_def)
  have "(2 :: int) ^ nat (bitlen k - 1) \<le> k" using bitlen_bounds [OF assms] by simp
  then have "(of_int ((2 :: int) ^ nat (bitlen k - 1)) :: rat) \<le> of_int k"
    by (simp only: of_int_le_iff)
  then have "pow2 (bitlen k - 1) \<le> of_int k"
    using b1 by (simp add: pow2_def)
  then show ?thesis
    by (simp add: floorLog2_def quotient_of_int bitlen_one)
qed

lemma roundTiesToEven_of_int: "roundTiesToEven (of_int n) = n"
  by (simp add: roundTiesToEven_def)

lemma bitlen_le_53:
  assumes "0 < k" and "k < 2 ^ 53"
  shows "1 \<le> bitlen k \<and> bitlen k \<le> 53"
proof -
  from assms(1) have b1: "1 \<le> bitlen k" by (simp add: bitlen_alt_def)
  have "(2 :: int) ^ nat (bitlen k - 1) \<le> k" using bitlen_bounds [OF assms(1)] by simp
  with assms(2) have lt: "(2 :: int) ^ nat (bitlen k - 1) < 2 ^ 53" by linarith
  have "nat (bitlen k - 1) < 53"
    by (rule power_less_imp_less_exp [OF _ lt]) simp
  with b1 show ?thesis by linarith
qed

lemma roundPositive_of_int:
  assumes "0 < k" and "k < 2 ^ 53"
  shows "roundPositive (of_int k) = of_int k"
proof -
  define e where "e = bitlen k - 1"
  from bitlen_le_53 [OF assms] have e: "0 \<le> e" "e \<le> 52" by (simp_all add: e_def)
  define n where "n = nat (52 - e)"
  have ulp: "pow2 (e - 52) = 1 / 2 ^ n"
    using e by (cases "e = 52") (simp_all add: pow2_def n_def)
  have "(of_int k :: rat) / (1 / 2 ^ n) = of_int (k * 2 ^ n)" by simp
  then have r: "roundTiesToEven (of_int k / (1 / 2 ^ n)) = k * 2 ^ n"
    by (simp only: roundTiesToEven_of_int)
  have "max (floorLog2 (of_int k)) (- 1022) = e"
    using e floorLog2_of_int [OF assms(1)] by (simp add: e_def)
  then have "roundPositive (of_int k)
      = of_int (roundTiesToEven (of_int k / pow2 (e - 52))) * pow2 (e - 52)"
    by (simp add: roundPositive_def Let_def)
  also have "\<dots> = of_int (k * 2 ^ n) * (1 / 2 ^ n)"
    unfolding ulp r ..
  also have "\<dots> = of_int k" by simp
  finally show ?thesis .
qed

lemma floorLog2_small:
  assumes "0 < k" and "k < 2 ^ 53"
  shows "\<not> 1024 \<le> floorLog2 (of_int k)"
  using floorLog2_of_int [OF assms(1)] bitlen_le_53 [OF assms] by simp

lemma fl_of_int:
  assumes "- (2 ^ 53) < k" and "k < 2 ^ 53"
  shows "fl (of_int k) = Finite (of_int k)"
proof (cases "k = 0")
  case True
  then show ?thesis by (simp add: fl_def)
next
  case False
  show ?thesis
  proof (cases "0 < k")
    case True
    from roundPositive_of_int [OF True assms(2)] floorLog2_small [OF True assms(2)] True
    show ?thesis by (simp add: fl_def Let_def)
  next
    case neg: False
    with False have pos: "0 < - k" by simp
    from assms(1) have lt: "- k < 2 ^ 53" by simp
    have "roundPositive (- of_int k) = of_int (- k)"
      using roundPositive_of_int [OF pos lt] by simp
    moreover have "\<not> 1024 \<le> floorLog2 (of_int (- k))"
      by (rule floorLog2_small [OF pos lt])
    ultimately show ?thesis
      using neg False by (simp add: fl_def Let_def)
  qed
qed

section \<open>Properties of the register decoder\<close>

text \<open>Sums, differences and products of integers are exact in double arithmetic while
  the result stays below \<open>2^53\<close> in magnitude.\<close>

lemma jsAdd_int:
  assumes "- (2 ^ 53) < a + b" and "a + b < 2 ^ 53"
  shows "jsAdd (Finite (of_int a)) (Finite (of_int b)) = Finite (of_int (a + b))"
  using fl_of_int [OF assms] by simp

lemma jsSub_int:
  assumes "- (2 ^ 53) < a - b" and "a - b < 2 ^ 53"
  shows "jsSub (Finite (of_int a)) (Finite (of_int b)) = Finite (of_int (a - b))"
  using fl_of_int [OF assms] by (simp add: jsSub_def)

lemma jsMul_int:
  assumes "- (2 ^ 53) < a * b" and "a * b < 2 ^ 53"
  shows "jsMul (Finite (of_int a)) (Finite (of_int b)) = Finite (of_int (a * b))"
  using fl_of_int [OF assms] by simp

lemma fl_power2:
  assumes "n \<le> 52"
  shows "fl (2 ^ n) = Finite (of_int (2 ^ n))"
proof -
  have "(2 :: int) ^ n < 2 ^ 53" using assms by (intro power_strict_increasing) simp_all
  moreover have "- (2 ^ 53) < (2 :: int) ^ n"
    by (rule less_le_trans [of _ 0]) simp_all
  ultimately have "fl (of_int (2 ^ n)) = Finite (of_int (2 ^ n))" by (rule fl_of_int [rotated])
  then show ?thesis by simp
qed

lemma and_FFFF_bounds: "0 \<le> (x :: int) AND 0xFFFF \<and> x AND 0xFFFF < 65536"
proof -
  have "x AND 0xFFFF = x AND mask 16" by (simp add: mask_eq_exp_minus_1)
  also have "\<dots> = x mod 2 ^ 16" by (simp add: and_mask_mod_2p take_bit_eq_mask[symmetric] take_bit_eq_mod)
  finally show ?thesis by simp
qed

text \<open>One step of the accumulation is exact while the sum stays below \<open>2^48\<close>.\<close>

lemma accumulate_step_exact:
  assumes "i < 3" and "0 \<le> r" and "r < 2 ^ (16 * i)" and "0 \<le> a" and "a < 65536"
  shows "jsAdd (Finite (of_int r)) (jsMul (Finite (of_int a)) (fl (2 ^ (16 * i))))
           = Finite (of_int (r + a * 2 ^ (16 * i)))
         \<and> 0 \<le> r + a * 2 ^ (16 * i) \<and> r + a * 2 ^ (16 * i) < 2 ^ (16 * (i + 1))"
proof -
  define P :: int where "P = 2 ^ (16 * i)"
  have P0: "0 < P" by (simp add: P_def)
  have "16 * i \<le> 32" using assms(1) by simp
  then have "(2 :: int) ^ (16 * i) \<le> 2 ^ 32" by (intro power_increasing) simp_all
  then have P32: "P \<le> 4294967296" by (simp add: P_def)
  have up: "a * P \<le> 65535 * P" using assms(5) P0 by (intro mult_right_mono) simp_all
  have lo: "0 \<le> a * P" using assms(4) P0 by simp
  have pw: "(2 :: int) ^ (16 * (i + 1)) = 65536 * P" by (simp add: P_def power_add)
  have f: "fl (2 ^ (16 * i)) = Finite (of_int P)"
    using fl_power2 [of "16 * i"] assms(1) by (simp add: P_def)
  have bigP: "65535 * P \<le> 65535 * 4294967296" using P32 by simp
  have rP: "r < P" using assms(3) by (simp add: P_def)
  have p53: "(2 :: int) ^ 53 = 9007199254740992" by simp
  have b1: "- (2 ^ 53) < a * P" "a * P < 2 ^ 53"
    unfolding p53 using lo up bigP by linarith+
  have b2: "- (2 ^ 53) < r + a * P" "r + a * P < 2 ^ 53"
    unfolding p53 using lo up bigP assms(2) rP P32 by linarith+
  have m: "jsMul (Finite (of_int a)) (Finite (of_int P)) = Finite (of_int (a * P))"
    by (rule jsMul_int [OF b1])
  have s: "jsAdd (Finite (of_int r)) (Finite (of_int (a * P))) = Finite (of_int (r + a * P))"
    by (rule jsAdd_int [OF b2])
  have "0 \<le> r + a * P" using lo assms(2) by simp
  moreover have "r + a * P < 65536 * P" using up rP by linarith
  ultimately show ?thesis
    unfolding f m s pw P_def [symmetric] by simp
qed

lemma accumulate_exact:
  assumes "i \<le> length regs" and "length regs \<le> 3" and "0 \<le> r" and "r < 2 ^ (16 * i)"
  shows "accumulate m regs i (Finite (of_int r))
       = Finite (of_int (r + (\<Sum>j = i..<length regs. (toInt (m (regs ! j)) AND 0xFFFF) * 2 ^ (16 * j))))"
  using assms
proof (induction "length regs - i" arbitrary: i r)
  case 0
  then have "i = length regs" by simp
  then show ?case by (subst accumulate.simps) simp
next
  case (Suc k)
  then have lt: "i < length regs" by simp
  with Suc.prems have i3: "i < 3" by simp
  define a where "a = toInt (m (regs ! i)) AND 0xFFFF"
  from and_FFFF_bounds [of "toInt (m (regs ! i))"] have a: "0 \<le> a" "a < 65536"
    by (simp_all add: a_def)
  note st = accumulate_step_exact [OF i3 Suc.prems(3,4) a]
  have "accumulate m regs i (Finite (of_int r))
      = accumulate m regs (i + 1) (Finite (of_int (r + a * 2 ^ (16 * i))))"
    using lt st by (subst accumulate.simps) (simp add: a_def)
  also have "\<dots> = Finite (of_int (r + a * 2 ^ (16 * i)
        + (\<Sum>j = i + 1..<length regs. (toInt (m (regs ! j)) AND 0xFFFF) * 2 ^ (16 * j))))"
    using Suc.hyps(2) lt Suc.prems(2) st by (intro Suc.hyps(1)) simp_all
  also have "r + a * 2 ^ (16 * i)
        + (\<Sum>j = i + 1..<length regs. (toInt (m (regs ! j)) AND 0xFFFF) * 2 ^ (16 * j))
      = r + (\<Sum>j = i..<length regs. (toInt (m (regs ! j)) AND 0xFFFF) * 2 ^ (16 * j))"
    using lt by (simp add: sum.atLeast_Suc_lessThan a_def)
  finally show ?case .
qed

lemma accumulate_spec_raw:
  "length regs \<le> 3 \<Longrightarrow> accumulate m regs 0 (Finite 0) = Finite (of_int (spec_raw m regs))"
  using accumulate_exact [of 0 regs 0 m]
  by (simp add: spec_raw_def atLeast0LessThan)

lemma weighted_sum_bounds:
  assumes "\<And>i. i < n \<Longrightarrow> 0 \<le> f i \<and> f i < (65536 :: int)"
  shows "0 \<le> (\<Sum>i < n. f i * 2 ^ (16 * i)) \<and> (\<Sum>i < n. f i * 2 ^ (16 * i)) < 2 ^ (16 * n)"
  using assms
proof (induction n)
  case 0
  then show ?case by simp
next
  case (Suc n)
  define P :: int where "P = 2 ^ (16 * n)"
  define S where "S = (\<Sum>i < n. f i * 2 ^ (16 * i))"
  from Suc have ih: "0 \<le> S" "S < P"
    by (simp_all add: P_def S_def)
  from Suc.prems [of n] have fn: "0 \<le> f n" "f n \<le> 65535" by simp_all
  have P: "0 \<le> P" by (simp add: P_def)
  have up: "f n * P \<le> 65535 * P"
    using fn P by (intro mult_right_mono)
  have lo: "0 \<le> f n * P" using fn P by simp
  have pw: "(2 :: int) ^ (16 * Suc n) = 65536 * P"
    by (simp add: P_def power_add)
  have sm: "(\<Sum>i < Suc n. f i * 2 ^ (16 * i)) = S + f n * P"
    by (simp add: P_def S_def)
  show ?case
    unfolding pw sm using ih up lo by linarith
qed

lemma spec_raw_bounds: "0 \<le> spec_raw m regs \<and> spec_raw m regs < 2 ^ (16 * length regs)"
  unfolding spec_raw_def by (rule weighted_sum_bounds) (rule and_FFFF_bounds)

lemma spec_raw_small:
  assumes "length regs \<le> 2"
  shows "spec_raw m regs mod 4294967296 = spec_raw m regs"
proof -
  have "(2 :: int) ^ (16 * length regs) \<le> 2 ^ 32"
    using assms by (intro power_increasing) simp_all
  with spec_raw_bounds [of m regs] show ?thesis by simp
qed

lemma spec_raw_48:
  assumes "length regs \<le> 3"
  shows "spec_raw m regs < 2 ^ 48"
proof -
  have "(2 :: int) ^ (16 * length regs) \<le> 2 ^ 48"
    using assms by (intro power_increasing) simp_all
  with spec_raw_bounds [of m regs] show ?thesis by linarith
qed

lemma present_unfold:
  "list_all (\<lambda>a. m a \<noteq> None) regs \<Longrightarrow> \<not> list_ex (\<lambda>addr. m addr = None) regs"
  by (simp add: list_all_iff list_ex_iff)

lemma scaled_default:
  assumes "offset d = None" and "scale d = None" and "- (2 ^ 53) < k" and "k < 2 ^ 53"
  shows "scaled d k = Finite (of_int k)"
  using assms fl_of_int [OF assms(3,4)] by (simp add: scaled_def jsSub_def)

text \<open>Rules 1 and 3, up to three registers: the accumulation is exact, and the raw value
  is the sum of the specification reduced modulo \<open>2^32\<close>.  With at most two registers that
  is the sum itself: the label or \<open>Unknown(raw)\<close> of the specification when there is a lookup
  table, \<open>(raw - offset) * scale\<close> in double arithmetic otherwise, which is \<open>raw\<close> itself when
  the definition has neither offset nor scale.\<close>

lemma decodeRegister_unsigned:
  assumes "rule d = 1 \<or> rule d = 3"
    and "list_all (\<lambda>a. m a \<noteq> None) (registers d)"
    and "length (registers d) \<le> 3"
  shows "decodeRegister d m = Inr (Some (decodeUnsigned32 d m))
         \<and> (length (registers d) \<le> 2 \<and> (lookup d \<noteq> None \<or> offset d = None \<and> scale d = None)
              \<longrightarrow> decodeRegister d m = Inr (Some (spec_decodeUnsigned d m)))"
proof -
  have raw: "jsToUint32 (accumulate m (registers d) 0 (Finite 0))
               = spec_raw m (registers d) mod 4294967296"
    using spec_raw_bounds [of m "registers d"] by (simp add: accumulate_spec_raw [OF assms(3)])
  have 1: "decodeRegister d m = Inr (Some (decodeUnsigned32 d m))"
    using assms(1) present_unfold [OF assms(2)]
    by (auto simp: decodeRegister_def decodeUnsigned32_def scaled_def Let_def raw
        split: option.splits)
  have 2: "decodeUnsigned32 d m = spec_decodeUnsigned d m"
    if le: "length (registers d) \<le> 2"
      and c: "lookup d \<noteq> None \<or> offset d = None \<and> scale d = None"
  proof (cases "lookup d")
    case (Some entries)
    then show ?thesis
      by (simp add: decodeUnsigned32_def spec_decodeUnsigned_def spec_raw_small [OF le])
  next
    case None
    with c have df: "offset d = None" "scale d = None" by simp_all
    have "spec_raw m (registers d) < 2 ^ 48" using le by (intro spec_raw_48) simp
    then have b: "- (2 ^ 53) < spec_raw m (registers d)" "spec_raw m (registers d) < 2 ^ 53"
      using spec_raw_bounds [of m "registers d"] by simp_all
    show ?thesis
      using None df scaled_default [OF df b]
      by (simp add: decodeUnsigned32_def spec_decodeUnsigned_def spec_raw_small [OF le])
  qed
  from 1 2 show ?thesis by simp
qed

text \<open>The sign extension of rules 2 and 4 is exact up to three registers.\<close>

lemma fl_half: "fl (1 / 2) = Finite (1 / 2)"
  by code_simp

lemma signExtend_exact:
  assumes "n \<le> 3" and "0 \<le> r" and "r < 2 ^ (16 * n)"
  shows "(if jsGe (Finite (of_int r)) (jsHalf (fl (2 ^ (16 * n))))
          then jsSub (Finite (of_int r)) (fl (2 ^ (16 * n)))
          else Finite (of_int r))
         = Finite (of_int (spec_signExtend n r))"
proof (cases n)
  case 0
  with assms have "r = 0" by simp
  with 0 show ?thesis
    using fl_power2 [of 0] by (simp add: fl_half jsGe_def spec_signExtend_def)
next
  case (Suc k)
  define h :: int where "h = 2 ^ (16 * n - 1)"
  have "16 * n = Suc (16 * n - 1)" using Suc by simp
  then have "(2 :: int) ^ (16 * n) = 2 ^ Suc (16 * n - 1)" by simp
  then have w: "(2 :: int) ^ (16 * n) = 2 * h" by (simp only: h_def power_Suc)
  have "16 * n - 1 \<le> 47" using assms(1) by simp
  then have "(2 :: int) ^ (16 * n - 1) \<le> 2 ^ 47" by (intro power_increasing) simp_all
  then have h47: "h \<le> 140737488355328" by (simp add: h_def)
  have h0: "0 < h" by (simp add: h_def)
  have p53: "(2 :: int) ^ 53 = 9007199254740992" by simp
  have wrap: "fl (2 ^ (16 * n)) = Finite (of_int (2 * h))"
    using fl_power2 [of "16 * n"] assms(1) w by simp
  have hb: "- (2 ^ 53) < h" "h < 2 ^ 53"
    unfolding p53 using h0 h47 by linarith+
  have "fl (of_int h) = Finite (of_int h)"
    by (rule fl_of_int [OF hb])
  then have half: "jsHalf (Finite (of_int (2 * h))) = Finite (of_int h)" by simp
  have sb: "- (2 ^ 53) < r - 2 * h" "r - 2 * h < 2 ^ 53"
    unfolding p53 using assms(2,3) w h0 h47 by linarith+
  have sub: "jsSub (Finite (of_int r)) (Finite (of_int (2 * h))) = Finite (of_int (r - 2 * h))"
    by (rule jsSub_int [OF sb])
  have ge: "jsGe (Finite (of_int r)) (Finite (of_int h)) = (h \<le> r)"
    by (simp add: jsGe_def)
  have se: "spec_signExtend n r = (if h \<le> r then r - 2 * h else r)"
    by (simp only: spec_signExtend_def h_def [symmetric] w)
  show ?thesis
    unfolding wrap half sub ge se by simp
qed

lemma spec_signExtend_bounds:
  assumes "n \<le> 3" and "0 \<le> r" and "r < 2 ^ (16 * n)"
  shows "- (2 ^ 53) < spec_signExtend n r \<and> spec_signExtend n r < 2 ^ 53"
proof -
  have "(2 :: int) ^ (16 * n) \<le> 2 ^ 48"
    using assms(1) by (intro power_increasing) simp_all
  then have "(2 :: int) ^ (16 * n) \<le> 281474976710656" by simp
  with assms(2,3) show ?thesis by (simp add: spec_signExtend_def)
qed

text \<open>
  Claim C6.  The claim fails in two places, both because the numbers of the code are
  doubles.  Four registers holding \<open>0xFFFF\<close> accumulate to \<open>2^64\<close>, not \<open>2^64 - 1\<close>, and the
  sign extension gives 0 where the claim says \<open>-1\<close>.  And the example of the claim, one
  register holding \<open>0xFFFF\<close> with offset 1000 and scale 0.1, gives
  \<open>-7043911292184167 / 2^46\<close>, printed \<open>-100.10000000000001\<close>: that is neither \<open>-100.1\<close> nor
  the double nearest to it, \<open>-7043911292184166 / 2^46\<close>.
\<close>

theorem C6_signed_decode_counterexample:
  "decodeRegister
     \<lparr>name = ''Total'', rule = 2, registers = [1, 2, 3, 4], scale = None, offset = None,
        fc = None, lookup = None, homeyCapability = None\<rparr>
     [1 \<mapsto> 0xFFFF, 2 \<mapsto> 0xFFFF, 3 \<mapsto> 0xFFFF, 4 \<mapsto> 0xFFFF]
   = Inr (Some (Num (Finite 0)))
   \<and> spec_decodeSigned
     \<lparr>name = ''Total'', rule = 2, registers = [1, 2, 3, 4], scale = None, offset = None,
        fc = None, lookup = None, homeyCapability = None\<rparr>
     [1 \<mapsto> 0xFFFF, 2 \<mapsto> 0xFFFF, 3 \<mapsto> 0xFFFF, 4 \<mapsto> 0xFFFF]
   = Num (Finite (- 1))
   \<and> decodeRegister
     \<lparr>name = ''Temperature'', rule = 2, registers = [0x5A], scale = Some (1 / 10),
        offset = Some 1000, fc = None, lookup = None,
        homeyCapability = Some ''measure_temperature''\<rparr>
     [0x5A \<mapsto> 0xFFFF]
   = Inr (Some (Num (Finite (- 7043911292184167 / 70368744177664))))
   \<and> spec_decodeSigned
     \<lparr>name = ''Temperature'', rule = 2, registers = [0x5A], scale = Some (1 / 10),
        offset = Some 1000, fc = None, lookup = None,
        homeyCapability = Some ''measure_temperature''\<rparr>
     [0x5A \<mapsto> 0xFFFF]
   = Num (Finite (- 1001 / 10))
   \<and> fl (- 1001 / 10) = Finite (- 7043911292184166 / 70368744177664)"
  by code_simp

text \<open>
  Claim C6, amended.  For a definition with rule 2 or 4 of at most three registers, all in
  the map, the accumulation and the sign extension are exact: \<open>decodeRegister\<close> returns
  \<open>(raw - offset) * scale\<close> in double arithmetic, each of the two operations rounded to the
  nearest double, where \<open>raw\<close> is the sum of \<open>(map[addr_i] & 0xFFFF) * 2^(16 i)\<close> over the \<open>N\<close>
  registers, low register first, sign-extended over \<open>16 N\<close> bits.  With neither offset nor
  scale the result is that integer, as the specification says.  The witness is the
  example of the specification.
\<close>

theorem C6_signed_decode:
  assumes "rule d = 2 \<or> rule d = 4"
    and "list_all (\<lambda>a. m a \<noteq> None) (registers d)"
    and "length (registers d) \<le> 3"
  shows "decodeRegister d m
           = Inr (Some (Num (scaled d (spec_signExtend (length (registers d))
                                         (spec_raw m (registers d))))))
         \<and> (offset d = None \<and> scale d = None
              \<longrightarrow> decodeRegister d m = Inr (Some (spec_decodeSigned d m)))"
proof -
  let ?r = "spec_raw m (registers d)"
  let ?n = "length (registers d)"
  have b: "0 \<le> ?r" "?r < 2 ^ (16 * ?n)" using spec_raw_bounds [of m "registers d"] by simp_all
  note se = signExtend_exact [OF assms(3) b]
  have 1: "decodeRegister d m = Inr (Some (Num (scaled d (spec_signExtend ?n ?r))))"
    using assms(1) present_unfold [OF assms(2)]
    by (auto simp: decodeRegister_def Let_def accumulate_spec_raw [OF assms(3)] se scaled_def)
  have 2: "scaled d (spec_signExtend ?n ?r) = Finite (of_int (spec_signExtend ?n ?r))"
    if "offset d = None" and "scale d = None"
    using spec_signExtend_bounds [OF assms(3) b] that by (intro scaled_default) simp_all
  have 3: "spec_decodeSigned d m = Num (Finite (of_int (spec_signExtend ?n ?r)))"
    if "offset d = None" and "scale d = None"
    using that by (simp add: spec_decodeSigned_def)
  from 1 2 3 show ?thesis by simp
qed

theorem C6_signed_decode_witness:
  "(rule \<lparr>name = ''Temperature'', rule = 2, registers = [0x5A], scale = Some (1 / 10),
           offset = Some 1000, fc = None, lookup = None,
           homeyCapability = Some ''measure_temperature''\<rparr> = 2
    \<or> rule \<lparr>name = ''Temperature'', rule = 2, registers = [0x5A], scale = Some (1 / 10),
           offset = Some 1000, fc = None, lookup = None,
           homeyCapability = Some ''measure_temperature''\<rparr> = 4)
   \<and> list_all (\<lambda>a. [(0x5A :: int) \<mapsto> (0xFFFF :: int)] a \<noteq> None) [0x5A]
   \<and> length [0x5A :: int] \<le> 3
   \<and> decodeRegister
        \<lparr>name = ''Temperature'', rule = 2, registers = [0x5A], scale = Some (1 / 10),
           offset = Some 1000, fc = None, lookup = None,
           homeyCapability = Some ''measure_temperature''\<rparr>
        [0x5A \<mapsto> 0xFFFF]
      = Inr (Some (Num (Finite (- 7043911292184167 / 70368744177664))))"
proof -
  let ?d = "\<lparr>name = ''Temperature'', rule = 2, registers = [0x5A], scale = Some (1 / 10),
           offset = Some 1000, fc = None, lookup = None,
           homeyCapability = Some ''measure_temperature''\<rparr>"
  let ?m = "[(0x5A :: int) \<mapsto> (0xFFFF :: int)]"
  have h1: "rule ?d = 2 \<or> rule ?d = 4" by simp
  have h2: "list_all (\<lambda>a. ?m a \<noteq> None) [0x5A]" by simp
  then have h2': "list_all (\<lambda>a. ?m a \<noteq> None) (registers ?d)" by simp
  have h3: "length [0x5A :: int] \<le> 3" by simp
  then have h3': "length (registers ?d) \<le> 3" by simp
  have v: "scaled ?d (spec_signExtend (length (registers ?d)) (spec_raw ?m (registers ?d)))
             = Finite (- 7043911292184167 / 70368744177664)"
    by code_simp
  from C6_signed_decode [OF h1 h2' h3']
  have "decodeRegister ?d ?m
          = Inr (Some (Num (scaled ?d (spec_signExtend (length (registers ?d))
                                         (spec_raw ?m (registers ?d))))))"
    by (rule conjunct1)
  then have e: "decodeRegister ?d ?m
                  = Inr (Some (Num (Finite (- 7043911292184167 / 70368744177664))))"
    unfolding v .
  show ?thesis by (intro conjI) fact+
qed

text \<open>
  Claim C5.  The claim holds for definitions of one or two registers, up to the rounding
  of \<open>(raw - offset) * scale\<close> (lemma \<open>decodeRegister_unsigned\<close>), and fails from three
  registers on, where \<open>raw >>> 0\<close> cuts the accumulated value to 32 bits: for rule 1 over
  the registers 1, 2, 3, each holding 1, the sum is \<open>1 + 2^16 + 2^32 = 4295032833\<close> and
  \<open>decodeRegister\<close> returns 65537.
\<close>

theorem C5_three_registers_truncated:
  "decodeRegister
     \<lparr>name = ''Counter'', rule = 1, registers = [1, 2, 3], scale = None, offset = None,
        fc = None, lookup = None, homeyCapability = None\<rparr>
     [1 \<mapsto> 1, 2 \<mapsto> 1, 3 \<mapsto> 1]
   = Inr (Some (Num (Finite 65537)))
   \<and> spec_decodeUnsigned
     \<lparr>name = ''Counter'', rule = 1, registers = [1, 2, 3], scale = None, offset = None,
        fc = None, lookup = None, homeyCapability = None\<rparr>
     [1 \<mapsto> 1, 2 \<mapsto> 1, 3 \<mapsto> 1]
   = Num (Finite 4295032833)"
  by code_simp

lemma mapE_hexToken_present:
  "list_all (\<lambda>a. m a \<noteq> None) regs \<Longrightarrow> \<exists>toks. mapE (\<lambda>a. hexToken (m a)) regs = Inr toks"
proof (induction regs)
  case Nil
  then show ?case by simp
next
  case (Cons a regs)
  then obtain v toks where "m a = Some v" and "mapE (\<lambda>a. hexToken (m a)) regs = Inr toks"
    by auto
  then show ?case by (simp add: hexToken_def bindE_Inr)
qed

lemma decodeRegister_missing:
  "list_ex (\<lambda>a. m a = None) (registers d) \<Longrightarrow> decodeRegister d m = Inr None"
  by (simp add: decodeRegister_def)

lemma decodeRegister_present:
  assumes "\<not> list_ex (\<lambda>a. m a = None) (registers d)"
  shows "\<exists>v. decodeRegister d m = Inr v"
proof -
  from assms have "list_all (\<lambda>a. m a \<noteq> None) (registers d)"
    by (simp add: list_all_iff list_ex_iff)
  from mapE_hexToken_present [OF this] obtain toks
    where "mapE (\<lambda>a. hexToken (m a)) (registers d) = Inr toks" by blast
  with assms show ?thesis
    by (simp add: decodeRegister_def Let_def bindE_Inr split: option.splits)
qed

lemma decodeRegister_unknown_rule:
  "rule d \<notin> {1, 2, 3, 4, 5, 6, 7} \<Longrightarrow> decodeRegister d m = Inr None"
  by (simp add: decodeRegister_def Let_def)

text \<open>
  Claim C8.  \<open>decodeRegister\<close> never raises: the only operation of its body that can raise
  is the method call \<open>registerMap.get(a).toString(16)\<close> of rule 6, and the first loop has
  returned \<open>null\<close> before whenever an address is missing.  It returns \<open>null\<close> when an
  address of the definition is missing from the map and when the rule is not one of 1 to
  7, and it returns a value only if every address of the definition is in the map.
\<close>

theorem C8_decodeRegister_total:
  "(\<exists>v. decodeRegister d m = Inr v)
   \<and> (list_ex (\<lambda>a. m a = None) (registers d) \<longrightarrow> decodeRegister d m = Inr None)
   \<and> (rule d \<notin> {1, 2, 3, 4, 5, 6, 7} \<longrightarrow> decodeRegister d m = Inr None)
   \<and> (\<forall>v. decodeRegister d m = Inr (Some v) \<longrightarrow> list_all (\<lambda>a. m a \<noteq> None) (registers d))"
proof (intro conjI allI impI)
  show "\<exists>v. decodeRegister d m = Inr v"
    using decodeRegister_missing decodeRegister_present by blast
next
  assume "list_ex (\<lambda>a. m a = None) (registers d)"
  then show "decodeRegister d m = Inr None" by (rule decodeRegister_missing)
next
  assume "rule d \<notin> {1, 2, 3, 4, 5, 6, 7}"
  then show "decodeRegister d m = Inr None" by (rule decodeRegister_unknown_rule)
next
  fix v assume v: "decodeRegister d m = Inr (Some v)"
  have "\<not> list_ex (\<lambda>a. m a = None) (registers d)"
  proof
    assume "list_ex (\<lambda>a. m a = None) (registers d)"
    from decodeRegister_missing [OF this] v show False by simp
  qed
  then show "list_all (\<lambda>a. m a \<noteq> None) (registers d)"
    by (simp add: list_all_iff list_ex_iff)
qed

theorem C8_decodeRegister_total_witness:
  "list_ex (\<lambda>a. [(0x6D :: int) \<mapsto> (2301 :: int)] a = None) [0x6D, 0x6E]
   \<and> decodeRegister
        \<lparr>name = ''PV'', rule = 6, registers = [0x6D, 0x6E], scale = None, offset = None,
           fc = None, lookup = None, homeyCapability = None\<rparr>
        [0x6D \<mapsto> 2301] = Inr None
   \<and> (9 :: int) \<notin> {1, 2, 3, 4, 5, 6, 7}
   \<and> decodeRegister
        \<lparr>name = ''PV'', rule = 9, registers = [0x6D], scale = None, offset = None,
           fc = None, lookup = None, homeyCapability = None\<rparr>
        [0x6D \<mapsto> 2301] = Inr None"
proof -
  let ?d = "\<lparr>name = ''PV'', rule = 6, registers = [0x6D, 0x6E], scale = None, offset = None,
           fc = None, lookup = None, homeyCapability = None\<rparr>"
  let ?d' = "\<lparr>name = ''PV'', rule = 9, registers = [0x6D], scale = None, offset = None,
           fc = None, lookup = None, homeyCapability = None\<rparr>"
  let ?m = "[(0x6D :: int) \<mapsto> (2301 :: int)]"
  have h1: "list_ex (\<lambda>a. ?m a = None) [0x6D, 0x6E]" by simp
  then have h1': "list_ex (\<lambda>a. ?m a = None) (registers ?d)" by simp
  have h2: "(9 :: int) \<notin> {1, 2, 3, 4, 5, 6, 7}" by simp
  then have h2': "rule ?d' \<notin> {1, 2, 3, 4, 5, 6, 7}" by simp
  from C8_decodeRegister_total [of ?d ?m] h1'
  have e1: "decodeRegister ?d ?m = Inr None" by blast
  from C8_decodeRegister_total [of ?d' ?m] h2'
  have e2: "decodeRegister ?d' ?m = Inr None" by blast
  show ?thesis by (intro conjI) fact+
qed

section \<open>Properties of the request planner\<close>

lemma mergeRanges_valid:
  assumes "1 \<le> B" and "s \<le> e" and "e - s < B" and "sorted (e # rest)"
  shows "list_all (validRequest B f) (mergeRanges f B s e rest)"
  using assms
proof (induction rest arbitrary: s e)
  case Nil
  then show ?case by simp
next
  case (Cons addr rest)
  from Cons.prems have le: "e \<le> addr" and srt: "sorted (addr # rest)" by simp_all
  show ?case
  proof (cases "addr - s < B")
    case True
    with Cons.prems le have "list_all (validRequest B f) (mergeRanges f B s addr rest)"
      by (intro Cons.IH srt) simp_all
    with True show ?thesis by simp
  next
    case False
    from Cons.prems(1) have "list_all (validRequest B f) (mergeRanges f B addr addr rest)"
      by (intro Cons.IH srt) simp_all
    with False Cons.prems show ?thesis by simp
  qed
qed

lemma mergeRanges_startsFrom:
  assumes "s \<le> e" and "sorted (e # rest)"
  shows "list_all (startsFrom s) (mergeRanges f B s e rest)"
  using assms
proof (induction rest arbitrary: s e)
  case Nil
  then show ?case by simp
next
  case (Cons addr rest)
  from Cons.prems have le: "e \<le> addr" and srt: "sorted (addr # rest)" by simp_all
  show ?case
  proof (cases "addr - s < B")
    case True
    with Cons.prems le have "list_all (startsFrom s) (mergeRanges f B s addr rest)"
      by (intro Cons.IH srt) simp_all
    with True show ?thesis by simp
  next
    case False
    have "list_all (startsFrom addr) (mergeRanges f B addr addr rest)"
      by (intro Cons.IH srt) simp
    moreover have "startsFrom addr r \<Longrightarrow> startsFrom s r" for r
      using Cons.prems(1) le by (cases r) simp_all
    ultimately have "list_all (startsFrom s) (mergeRanges f B addr addr rest)"
      by (simp add: list_all_iff)
    with False show ?thesis by simp
  qed
qed

lemma mergeRanges_sorted:
  assumes "s \<le> e" and "e - s < B" and "sorted (e # rest)"
  shows "sorted_wrt endsBefore (mergeRanges f B s e rest)"
  using assms
proof (induction rest arbitrary: s e)
  case Nil
  then show ?case by simp
next
  case (Cons addr rest)
  from Cons.prems have le: "e \<le> addr" and srt: "sorted (addr # rest)" by simp_all
  show ?case
  proof (cases "addr - s < B")
    case True
    with Cons.prems le have "sorted_wrt endsBefore (mergeRanges f B s addr rest)"
      by (intro Cons.IH srt) simp_all
    with True show ?thesis by simp
  next
    case False
    with Cons.prems(2) have lt: "e < addr" by simp
    from False Cons.prems(2) have pos: "0 < B" using le Cons.prems(1) by linarith
    have tl: "sorted_wrt endsBefore (mergeRanges f B addr addr rest)"
      using pos by (intro Cons.IH srt) simp_all
    have "list_all (startsFrom addr) (mergeRanges f B addr addr rest)"
      by (intro mergeRanges_startsFrom srt) simp
    moreover have "startsFrom addr r \<Longrightarrow> endsBefore (ReadRequest f s (e - s + 1)) r" for r
      using lt by (cases r) simp_all
    ultimately have "\<forall>r \<in> set (mergeRanges f B addr addr rest).
        endsBefore (ReadRequest f s (e - s + 1)) r"
      by (simp add: list_all_iff)
    with tl False show ?thesis by simp
  qed
qed

lemma mergeRanges_covers:
  assumes "s \<le> e" and "sorted (e # rest)"
    and "(s \<le> a \<and> a \<le> e) \<or> a \<in> set rest"
  shows "list_ex (covers f a) (mergeRanges f B s e rest)"
  using assms
proof (induction rest arbitrary: s e)
  case Nil
  then show ?case by simp
next
  case (Cons addr rest)
  from Cons.prems have le: "e \<le> addr" and srt: "sorted (addr # rest)" by simp_all
  show ?case
  proof (cases "addr - s < B")
    case True
    from Cons.prems(3) have "(s \<le> a \<and> a \<le> addr) \<or> a \<in> set rest"
      using le Cons.prems(1) by auto
    with Cons.prems(1) le have "list_ex (covers f a) (mergeRanges f B s addr rest)"
      by (intro Cons.IH srt) simp_all
    with True show ?thesis by simp
  next
    case False
    show ?thesis
    proof (cases "s \<le> a \<and> a \<le> e")
      case True
      with False show ?thesis by simp
    next
      case outside: False
      with Cons.prems(3) have "(addr \<le> a \<and> a \<le> addr) \<or> a \<in> set rest" by auto
      then have "list_ex (covers f a) (mergeRanges f B addr addr rest)"
        by (intro Cons.IH srt) simp_all
      with False show ?thesis by simp
    qed
  qed
qed

text \<open>Among requests that end before the next one starts, at most one covers a given
  address.\<close>

lemma covers_at_most_once:
  assumes "sorted_wrt endsBefore rs"
  shows "length (filter (covers f a) rs) \<le> 1"
  using assms
proof (induction rs)
  case Nil
  then show ?case by simp
next
  case (Cons r rs)
  show ?case
  proof (cases "covers f a r")
    case True
    have "\<not> covers f a r'" if "r' \<in> set rs" for r'
    proof -
      from Cons.prems that have "endsBefore r r'" by simp
      with True show ?thesis by (cases r; cases r') auto
    qed
    then have "filter (covers f a) rs = []" by (simp add: filter_empty_conv)
    with True show ?thesis by simp
  next
    case False
    with Cons show ?thesis by simp
  qed
qed

lemma covers_exactly_once:
  assumes "sorted_wrt endsBefore rs" and "list_ex (covers f a) rs"
  shows "length (filter (covers f a) rs) = 1"
proof -
  from assms(2) have "filter (covers f a) rs \<noteq> []"
    by (simp add: filter_empty_conv list_ex_iff)
  then have "1 \<le> length (filter (covers f a) rs)"
    by (cases "filter (covers f a) rs") simp_all
  with covers_at_most_once [OF assms(1), of f a] show ?thesis by simp
qed

text \<open>The requests of one function code.\<close>

lemma requestsFor_properties:
  assumes "1 \<le> B" and "addrSet \<noteq> []"
  shows "list_all (validRequest B f) (requestsFor B f addrSet)"
    and "sorted_wrt endsBefore (requestsFor B f addrSet)"
    and "a \<in> set addrSet \<Longrightarrow> list_ex (covers f a) (requestsFor B f addrSet)"
proof -
  from assms(2) obtain first rest where s: "sort addrSet = first # rest"
    by (cases "sort addrSet") (auto dest: arg_cong [where f = length])
  have "sorted (sort addrSet)" by simp
  then have srt: "sorted (first # rest)" by (simp only: s)
  have "set (sort addrSet) = set addrSet" by simp
  then have st: "set addrSet = set (first # rest)" by (simp only: s)
  have rf: "requestsFor B f addrSet = mergeRanges f B first first rest"
    by (simp add: requestsFor_def s)
  show "list_all (validRequest B f) (requestsFor B f addrSet)"
    unfolding rf using assms(1) srt by (intro mergeRanges_valid) simp_all
  show "sorted_wrt endsBefore (requestsFor B f addrSet)"
    unfolding rf using assms(1) srt by (intro mergeRanges_sorted) simp_all
  show "list_ex (covers f a) (requestsFor B f addrSet)" if "a \<in> set addrSet"
    unfolding rf using that st srt by (intro mergeRanges_covers) auto
qed


lemma set_foldl_setAdd: "set (foldl setAdd s addrs) = set s \<union> set addrs"
  by (induction addrs arbitrary: s) (auto simp: setAdd_def)

lemma byFcAdd_keys:
  "map fst (byFcAdd gs f addrs)
     = (if f \<in> set (map fst gs) then map fst gs else map fst gs @ [f])"
proof (induction gs)
  case Nil
  then show ?case by simp
next
  case (Cons h gs)
  then show ?case by (cases h) force
qed

lemma byFcAdd_distinct:
  "distinct (map fst gs) \<Longrightarrow> distinct (map fst (byFcAdd gs f addrs))"
  by (simp add: byFcAdd_keys)

lemma byFcAdd_nonempty:
  assumes "list_all (\<lambda>g. snd g \<noteq> []) gs" and "addrs \<noteq> []"
  shows "list_all (\<lambda>g. snd g \<noteq> []) (byFcAdd gs f addrs)"
proof -
  have ne: "foldl setAdd s addrs \<noteq> []" for s
  proof
    assume "foldl setAdd s addrs = []"
    then have "set (foldl setAdd s addrs) = {}" by simp
    with assms(2) show False by (simp add: set_foldl_setAdd)
  qed
  from assms(1) show ?thesis
  proof (induction gs)
    case Nil
    then show ?case by (simp add: ne)
  next
    case (Cons h gs)
    then show ?case by (cases h) (simp add: ne)
  qed
qed

lemma byFcAdd_grows:
  "(g, s) \<in> set gs \<Longrightarrow> a \<in> set s \<Longrightarrow>
     \<exists>s'. (g, s') \<in> set (byFcAdd gs f addrs) \<and> a \<in> set s'"
proof (induction gs)
  case Nil
  then show ?case by simp
next
  case (Cons h gs)
  then show ?case
    by (cases h) (auto simp: set_foldl_setAdd)
qed

lemma byFcAdd_adds:
  "a \<in> set addrs \<Longrightarrow> \<exists>s'. (f, s') \<in> set (byFcAdd gs f addrs) \<and> a \<in> set s'"
proof (induction gs)
  case Nil
  then show ?case by (simp add: set_foldl_setAdd)
next
  case (Cons h gs)
  then show ?case
    by (cases h) (auto simp: set_foldl_setAdd)
qed

lemma groups_distinct:
  "distinct (map fst gs) \<Longrightarrow>
     distinct (map fst (foldl (\<lambda>byFc d. byFcAdd byFc (fcOf d) (registers d)) gs defs))"
  by (induction defs arbitrary: gs) (simp_all add: byFcAdd_distinct)

lemma groups_nonempty:
  "list_all (\<lambda>g. snd g \<noteq> []) gs \<Longrightarrow> list_all (\<lambda>d. registers d \<noteq> []) defs \<Longrightarrow>
     list_all (\<lambda>g. snd g \<noteq> [])
       (foldl (\<lambda>byFc d. byFcAdd byFc (fcOf d) (registers d)) gs defs)"
  by (induction defs arbitrary: gs) (simp_all add: byFcAdd_nonempty)

lemma groups_keep:
  "(g, s) \<in> set gs \<Longrightarrow> a \<in> set s \<Longrightarrow>
     \<exists>s'. (g, s') \<in> set (foldl (\<lambda>byFc d. byFcAdd byFc (fcOf d) (registers d)) gs defs)
          \<and> a \<in> set s'"
proof (induction defs arbitrary: gs s)
  case Nil
  then show ?case by auto
next
  case (Cons d defs)
  from byFcAdd_grows [OF Cons.prems, of "fcOf d" "registers d"] obtain s'
    where "(g, s') \<in> set (byFcAdd gs (fcOf d) (registers d))" and "a \<in> set s'" by blast
  from Cons.IH [OF this] show ?case by simp
qed

lemma groups_cover:
  "d \<in> set defs \<Longrightarrow> a \<in> set (registers d) \<Longrightarrow>
     \<exists>s. (fcOf d, s) \<in> set (foldl (\<lambda>byFc d. byFcAdd byFc (fcOf d) (registers d)) gs defs)
         \<and> a \<in> set s"
proof (induction defs arbitrary: gs)
  case Nil
  then show ?case by simp
next
  case (Cons d' defs)
  show ?case
  proof (cases "d = d'")
    case True
    from byFcAdd_adds [OF Cons.prems(2), of "fcOf d" gs] obtain s'
      where "(fcOf d, s') \<in> set (byFcAdd gs (fcOf d) (registers d))" and "a \<in> set s'"
      by blast
    from groups_keep [OF this, of defs] True show ?thesis by simp
  next
    case False
    with Cons.prems have "d \<in> set defs" by simp
    from Cons.IH [OF this Cons.prems(2)] show ?thesis by simp
  qed
qed

lemma validRequest_hasFc: "validRequest B g r \<Longrightarrow> hasFc f r = (g = f)"
  by (cases r) auto

lemma validRequest_countAtMost: "validRequest B g r \<Longrightarrow> countAtMost B r"
  by (cases r) auto

lemma covers_hasFc: "covers f a r \<Longrightarrow> hasFc f r"
  by (cases r) auto

lemma filter_hasFc_requests:
  assumes "1 \<le> B" and "distinct (map fst gs)" and "list_all (\<lambda>g. snd g \<noteq> []) gs"
  shows "filter (hasFc f) (concat (map (\<lambda>(g, addrSet). requestsFor B g addrSet) gs))
           = (case map_of gs f of None \<Rightarrow> [] | Some addrSet \<Rightarrow> requestsFor B f addrSet)"
  using assms(2,3)
proof (induction gs)
  case Nil
  then show ?case by simp
next
  case (Cons h gs)
  obtain g addrSet where h: "h = (g, addrSet)" by (cases h)
  from Cons.prems h have ne: "addrSet \<noteq> []" and nin: "g \<notin> fst ` set gs"
    and d: "distinct (map fst gs)" and n: "list_all (\<lambda>g. snd g \<noteq> []) gs"
    by simp_all
  have valid: "list_all (validRequest B g) (requestsFor B g addrSet)"
    using assms(1) ne by (rule requestsFor_properties(1))
  note ih = Cons.IH [OF d n]
  show ?case
  proof (cases "g = f")
    case True
    with valid have "filter (hasFc f) (requestsFor B g addrSet) = requestsFor B g addrSet"
      by (auto simp: list_all_iff validRequest_hasFc filter_id_conv)
    moreover from True nin have "map_of gs f = None"
      by (simp add: map_of_eq_None_iff)
    ultimately show ?thesis using ih True h by simp
  next
    case False
    with valid have "filter (hasFc f) (requestsFor B g addrSet) = []"
      by (auto simp: list_all_iff validRequest_hasFc filter_empty_conv)
    with ih False h show ?thesis by simp
  qed
qed

text \<open>
  Claim C4, as stated, for every maximum batch size.  It fails for a batch size below 1:
  a request that covers an address has a count of at least 1.  With batch size 0 the one
  address \<open>0x3B\<close> is read by a request of count 1.
\<close>

theorem C4_zero_batch_counterexample:
  "buildReadRequests
     [\<lparr>name = ''Device State'', rule = 1, registers = [0x3B], scale = None, offset = None,
        fc = None, lookup = None, homeyCapability = None\<rparr>] 0
   = [ReadRequest 3 0x3B 1]
   \<and> \<not> list_all (countAtMost 0)
        (buildReadRequests
           [\<lparr>name = ''Device State'', rule = 1, registers = [0x3B], scale = None, offset = None,
              fc = None, lookup = None, homeyCapability = None\<rparr>] 0)"
  by code_simp

text \<open>
  Claim C4, amended: for every list of definitions whose address lists are non-empty and
  every maximum batch size \<open>B \<ge> 1\<close>, every request of \<open>buildReadRequests\<close> has a count of
  at most \<open>B\<close>; the requests of each function code, in the order of the result, each end
  before the next one starts (ascending and disjoint); and every address of every
  definition lies in the range of exactly one request of the definition's function code.
\<close>

theorem C4_buildReadRequests:
  assumes "list_all (\<lambda>d. registers d \<noteq> []) defs" and "1 \<le> B"
  shows "list_all (countAtMost B) (buildReadRequests defs B)
     \<and> (\<forall>f. sorted_wrt endsBefore (filter (hasFc f) (buildReadRequests defs B)))
     \<and> (\<forall>d a. d \<in> set defs \<and> a \<in> set (registers d) \<longrightarrow>
           length (filter (covers (fcOf d) a) (buildReadRequests defs B)) = 1)"
proof (intro conjI allI impI)
  let ?G = "groupByFc defs"
  have dist: "distinct (map fst ?G)"
    unfolding groupByFc_def by (rule groups_distinct) simp
  have ne: "list_all (\<lambda>g. snd g \<noteq> []) ?G"
    unfolding groupByFc_def using assms(1) by (intro groups_nonempty) simp_all
  have by_fc: "filter (hasFc f) (buildReadRequests defs B)
      = (case map_of ?G f of None \<Rightarrow> [] | Some addrSet \<Rightarrow> requestsFor B f addrSet)" for f
    unfolding buildReadRequests_def using assms(2) dist ne by (rule filter_hasFc_requests)
  have group_ne: "addrSet \<noteq> []" if "map_of ?G f = Some addrSet" for f addrSet
    using map_of_SomeD [OF that] ne by (auto simp: list_all_iff)
  show "list_all (countAtMost B) (buildReadRequests defs B)"
  proof -
    have "list_all (validRequest B g) (requestsFor B g addrSet)"
      if "(g, addrSet) \<in> set ?G" for g addrSet
      using that ne assms(2) by (intro requestsFor_properties(1)) (auto simp: list_all_iff)
    then show ?thesis
      unfolding buildReadRequests_def
      by (auto simp: list_all_iff intro: validRequest_countAtMost)
  qed
  show "sorted_wrt endsBefore (filter (hasFc f) (buildReadRequests defs B))" for f
  proof (cases "map_of ?G f")
    case None
    then show ?thesis by (simp add: by_fc)
  next
    case (Some addrSet)
    from requestsFor_properties(2) [OF assms(2) group_ne [OF Some], of f] Some
    show ?thesis by (simp add: by_fc)
  qed
  show "length (filter (covers (fcOf d) a) (buildReadRequests defs B)) = 1"
    if "d \<in> set defs \<and> a \<in> set (registers d)" for d a
  proof -
    from that groups_cover [of d defs a "[]"] obtain addrSet
      where mem: "(fcOf d, addrSet) \<in> set ?G" and a: "a \<in> set addrSet"
      unfolding groupByFc_def by blast
    from mem dist have m: "map_of ?G (fcOf d) = Some addrSet" by simp
    have "filter (covers (fcOf d) a) (buildReadRequests defs B)
        = filter (covers (fcOf d) a) (filter (hasFc (fcOf d)) (buildReadRequests defs B))"
      by (auto intro: filter_cong dest: covers_hasFc)
    also have "\<dots> = filter (covers (fcOf d) a) (requestsFor B (fcOf d) addrSet)"
      by (simp add: by_fc m)
    finally have eq: "filter (covers (fcOf d) a) (buildReadRequests defs B)
        = filter (covers (fcOf d) a) (requestsFor B (fcOf d) addrSet)" .
    from a have ane: "addrSet \<noteq> []" by auto
    show ?thesis
      unfolding eq
      using requestsFor_properties(2) [OF assms(2) ane]
            requestsFor_properties(3) [OF assms(2) ane a]
      by (rule covers_exactly_once)
  qed
qed


theorem C4_buildReadRequests_witness:
  "list_all (\<lambda>d. registers d \<noteq> [])
     [\<lparr>name = ''Device State'', rule = 1, registers = [0x3B], scale = None, offset = None,
         fc = None, lookup = None, homeyCapability = None\<rparr>,
      \<lparr>name = ''Total Production'', rule = 3, registers = [0x3F, 0x40], scale = Some (1 / 10),
         offset = None, fc = None, lookup = None, homeyCapability = Some ''meter_power''\<rparr>,
      \<lparr>name = ''Far'', rule = 1, registers = [200], scale = None, offset = None,
         fc = None, lookup = None, homeyCapability = None\<rparr>,
      \<lparr>name = ''Input'', rule = 1, registers = [7], scale = None, offset = None,
         fc = Some 4, lookup = None, homeyCapability = None\<rparr>]
   \<and> (1 :: int) \<le> 100
   \<and> list_all (countAtMost 100)
        (buildReadRequests
           [\<lparr>name = ''Device State'', rule = 1, registers = [0x3B], scale = None, offset = None,
               fc = None, lookup = None, homeyCapability = None\<rparr>,
            \<lparr>name = ''Total Production'', rule = 3, registers = [0x3F, 0x40], scale = Some (1 / 10),
               offset = None, fc = None, lookup = None, homeyCapability = Some ''meter_power''\<rparr>,
            \<lparr>name = ''Far'', rule = 1, registers = [200], scale = None, offset = None,
               fc = None, lookup = None, homeyCapability = None\<rparr>,
            \<lparr>name = ''Input'', rule = 1, registers = [7], scale = None, offset = None,
               fc = Some 4, lookup = None, homeyCapability = None\<rparr>] 100)
   \<and> sorted_wrt endsBefore
        (filter (hasFc 3)
          (buildReadRequests
           [\<lparr>name = ''Device State'', rule = 1, registers = [0x3B], scale = None, offset = None,
               fc = None, lookup = None, homeyCapability = None\<rparr>,
            \<lparr>name = ''Total Production'', rule = 3, registers = [0x3F, 0x40], scale = Some (1 / 10),
               offset = None, fc = None, lookup = None, homeyCapability = Some ''meter_power''\<rparr>,
            \<lparr>name = ''Far'', rule = 1, registers = [200], scale = None, offset = None,
               fc = None, lookup = None, homeyCapability = None\<rparr>,
            \<lparr>name = ''Input'', rule = 1, registers = [7], scale = None, offset = None,
               fc = Some 4, lookup = None, homeyCapability = None\<rparr>] 100))
   \<and> buildReadRequests
           [\<lparr>name = ''Device State'', rule = 1, registers = [0x3B], scale = None, offset = None,
               fc = None, lookup = None, homeyCapability = None\<rparr>,
            \<lparr>name = ''Total Production'', rule = 3, registers = [0x3F, 0x40], scale = Some (1 / 10),
               offset = None, fc = None, lookup = None, homeyCapability = Some ''meter_power''\<rparr>,
            \<lparr>name = ''Far'', rule = 1, registers = [200], scale = None, offset = None,
               fc = None, lookup = None, homeyCapability = None\<rparr>,
            \<lparr>name = ''Input'', rule = 1, registers = [7], scale = None, offset = None,
               fc = Some 4, lookup = None, homeyCapability = None\<rparr>] 100
       = [ReadRequest 3 0x3B 6, ReadRequest 3 200 1, ReadRequest 4 7 1]"
proof -
  let ?defs = "[\<lparr>name = ''Device State'', rule = 1, registers = [0x3B], scale = None, offset = None,
               fc = None, lookup = None, homeyCapability = None\<rparr>,
            \<lparr>name = ''Total Production'', rule = 3, registers = [0x3F, 0x40], scale = Some (1 / 10),
               offset = None, fc = None, lookup = None, homeyCapability = Some ''meter_power''\<rparr>,
            \<lparr>name = ''Far'', rule = 1, registers = [200], scale = None, offset = None,
               fc = None, lookup = None, homeyCapability = None\<rparr>,
            \<lparr>name = ''Input'', rule = 1, registers = [7], scale = None, offset = None,
               fc = Some 4, lookup = None, homeyCapability = None\<rparr>]"
  have h1: "list_all (\<lambda>d. registers d \<noteq> []) ?defs" by simp
  have h2: "(1 :: int) \<le> 100" by simp
  note main = C4_buildReadRequests [OF h1 h2]
  from main have c1: "list_all (countAtMost 100) (buildReadRequests ?defs 100)" by blast
  from main have c2: "sorted_wrt endsBefore (filter (hasFc 3) (buildReadRequests ?defs 100))"
    by blast
  have c3: "buildReadRequests ?defs 100
       = [ReadRequest 3 0x3B 6, ReadRequest 3 200 1, ReadRequest 4 7 1]"
    by code_simp
  show ?thesis by (intro conjI) fact+
qed

end
